theory Spec2Isabelle
  imports Complex_Main "HOL-Library.Multiset"
begin

section \<open>Time, the clock and exceptions\<close>

text \<open>
  A \<open>datetime\<close> is a whole number of microseconds on the UTC time axis and a
  \<open>timedelta\<close> a whole number of microseconds, the resolution of both Python types.
  The delays the source computes with \<open>total_seconds()\<close> and hands on in seconds
  (\<open>p_delay\<close>, \<open>p_downtime\<close>, \<open>wait_in_seconds\<close>, \<open>overslept_in_seconds\<close>), the
  \<open>interval\<close> of a task and the two thresholds of the configuration are represented by
  the same duration counted in microseconds: \<open>timedelta(seconds=total_seconds(d))\<close> is
  \<open>d\<close> again, and a delay compares with a threshold of whole seconds as its microseconds
  do. The downtime the application accumulates with \<open>+=\<close> is a float and is kept as
  one (see the floats below).

  \<open>datetime.datetime.utcnow()\<close> reads the wall clock. The clock is a sequence of
  readings, and each call consumes the next one.
\<close>

type_synonym datetime = int
type_synonym seconds = int

record clock =
  readings :: "nat \<Rightarrow> datetime"
  reads :: nat

definition utcnow :: "clock \<Rightarrow> datetime \<times> clock" where
  "utcnow c = (readings c (reads c), c\<lparr>reads := Suc (reads c)\<rparr>)"

subsection \<open>Floats\<close>

text \<open>
  A Python float is a binary double; it is represented by the rational number it denotes
  (infinities, NaN and subnormal numbers do not arise from durations). An operation gives
  the double nearest to the exact result, ties to the even significand: \<open>round_to_53\<close>
  scales a positive number into the range of 53-bit integers, rounds it there and scales
  it back; its fuel covers every exponent of a double. \<open>total_seconds\<close> is the
  microseconds of a \<open>timedelta\<close> divided by \<open>10**6\<close>, \<open>float_add\<close> is \<open>+\<close> on
  floats, and \<open>int_of_float\<close> is \<open>int(x)\<close>, which cuts off the fraction.
\<close>

type_synonym float = rat

definition round_half_even :: "rat \<Rightarrow> int" where
  "round_half_even x =
     (let f = \<lfloor>x\<rfloor>; r = x - of_int f
      in if r < 1 / 2 then f else if 1 / 2 < r then f + 1 else if even f then f else f + 1)"

fun round_to_53 :: "nat \<Rightarrow> rat \<Rightarrow> rat" where
  "round_to_53 0 a = a"
| "round_to_53 (Suc fuel) a =
     (if 2 ^ 53 \<le> a then 2 * round_to_53 fuel (a / 2)
      else if a < 2 ^ 52 then round_to_53 fuel (a * 2) / 2
      else of_int (round_half_even a))"

definition to_float :: "rat \<Rightarrow> float" where
  "to_float x =
     (if x = 0 then 0 else if 0 < x then round_to_53 2200 x else - round_to_53 2200 (- x))"

definition float_add :: "float \<Rightarrow> float \<Rightarrow> float" where
  "float_add x y = to_float (x + y)"

definition total_seconds :: "seconds \<Rightarrow> float" where
  "total_seconds d = to_float (of_int d / 1000000)"

definition int_of_float :: "float \<Rightarrow> int" where
  "int_of_float x = (if 0 \<le> x then \<lfloor>x\<rfloor> else \<lceil>x\<rceil>)"

text \<open>
  The exceptions that can travel through the scheduler. All but \<open>SignalHangUp\<close> are
  caught by \<open>except Exception\<close>; \<open>OtherException\<close> stands for whatever else a handler
  or \<open>time.sleep\<close> raises.
\<close>

datatype exn = SignalHangUp | TypeError | IndexError | OtherException

datatype outcome = Returns | Raises exn

section \<open>RecurringTask\<close>

text \<open>
  The handler of a task is an arbitrary operation of the application. All the scheduler
  sees of a call is whether it returns or raises; the argument is the number of handler
  calls the application has made before this one, so that a handler may behave differently
  from call to call; a handler does not touch the queue of the application. A task object
  is held by one entry of the queue and nowhere else (the application registers each of
  its tasks once), so the queue is a list of task values.
\<close>

record recurring_task =
  name :: string
  handler_method :: "nat \<Rightarrow> outcome"
  interval :: seconds
  next_execution :: "datetime option"
  fixed_schedule :: bool

text \<open>
  \<open>a < b\<close> on two tasks is \<open>a.__lt__(b)\<close>, that is \<open>a.next_execution < b\<close>; the
  \<open>datetime\<close> cannot compare itself with a task, so Python asks the reflected
  \<open>b.__gt__(a.next_execution)\<close>, that is \<open>b.next_execution > a.next_execution\<close>.
  With either side unset the comparison raises \<open>TypeError\<close>.
\<close>

definition task_lt :: "recurring_task \<Rightarrow> recurring_task \<Rightarrow> exn + bool" where
  "task_lt a b =
     (case next_execution a of
        None \<Rightarrow> Inl TypeError
      | Some x \<Rightarrow> (case next_execution b of None \<Rightarrow> Inl TypeError | Some y \<Rightarrow> Inr (x < y)))"

definition compute_next_execution_time :: "recurring_task \<Rightarrow> clock \<Rightarrow> recurring_task \<times> clock" where
  "compute_next_execution_time task c =
     (case next_execution task of
        None \<Rightarrow> (let (now, c') = utcnow c in (task\<lparr>next_execution := Some now\<rparr>, c'))
      | Some t \<Rightarrow>
          if fixed_schedule task then (task\<lparr>next_execution := Some (t + interval task)\<rparr>, c)
          else (let (now, c') = utcnow c in (task\<lparr>next_execution := Some (now + interval task)\<rparr>, c')))"

definition adapt_to_delay :: "seconds \<Rightarrow> recurring_task \<Rightarrow> recurring_task" where
  "adapt_to_delay p_delay task =
     (case next_execution task of
        None \<Rightarrow> task
      | Some t \<Rightarrow> task\<lparr>next_execution := Some (t + p_delay)\<rparr>)"

section \<open>The heap queue of the standard library\<close>

text \<open>
  \<open>heapq\<close> is the binary heap of CPython's \<open>Lib/heapq.py\<close>, on a list, with \<open><\<close> as
  its only comparison. \<open>_siftdown\<close> moves an item towards the root; \<open>_siftup\<close> moves
  the smaller child up until a leaf is reached and then sifts the displaced item back
  down from the leaf. The list is changed in place, so an exception raised by a comparison
  leaves it as it is at that moment: the error value carries that list.
\<close>

function siftdown_loop ::
  "recurring_task list \<Rightarrow> nat \<Rightarrow> nat \<Rightarrow> recurring_task \<Rightarrow> exn \<times> recurring_task list + recurring_task list" where
  "siftdown_loop heap startpos pos newitem =
     (if pos > startpos then
        (case task_lt newitem (heap ! ((pos - 1) div 2)) of
           Inl e \<Rightarrow> Inl (e, heap)
         | Inr is_less \<Rightarrow>
             if is_less then
               siftdown_loop (heap[pos := heap ! ((pos - 1) div 2)]) startpos ((pos - 1) div 2) newitem
             else Inr (heap[pos := newitem]))
      else Inr (heap[pos := newitem]))"
  by pat_completeness auto
termination
  by (relation "measure (\<lambda>(heap, startpos, pos, newitem). pos)") auto

definition siftdown ::
  "recurring_task list \<Rightarrow> nat \<Rightarrow> nat \<Rightarrow> exn \<times> recurring_task list + recurring_task list" where
  "siftdown heap startpos pos =
     (if pos < length heap then siftdown_loop heap startpos pos (heap ! pos)
      else Inl (IndexError, heap))"

function siftup_loop ::
  "recurring_task list \<Rightarrow> nat \<Rightarrow> exn \<times> recurring_task list + recurring_task list \<times> nat" where
  "siftup_loop heap pos =
     (if 2 * pos + 1 < length heap then
        (if 2 * pos + 2 < length heap then
           (case task_lt (heap ! (2 * pos + 1)) (heap ! (2 * pos + 2)) of
              Inl e \<Rightarrow> Inl (e, heap)
            | Inr is_less \<Rightarrow>
                if \<not> is_less then siftup_loop (heap[pos := heap ! (2 * pos + 2)]) (2 * pos + 2)
                else siftup_loop (heap[pos := heap ! (2 * pos + 1)]) (2 * pos + 1))
         else siftup_loop (heap[pos := heap ! (2 * pos + 1)]) (2 * pos + 1))
      else Inr (heap, pos))"
  by pat_completeness auto
termination
  by (relation "measure (\<lambda>(heap, pos). length heap - pos)") auto

definition siftup ::
  "recurring_task list \<Rightarrow> nat \<Rightarrow> exn \<times> recurring_task list + recurring_task list" where
  "siftup heap pos =
     (if pos < length heap then
        (case siftup_loop heap pos of
           Inl r \<Rightarrow> Inl r
         | Inr (heap', leaf) \<Rightarrow> siftdown (heap'[leaf := heap ! pos]) pos leaf)
      else Inl (IndexError, heap))"

definition heappush ::
  "recurring_task list \<Rightarrow> recurring_task \<Rightarrow> exn \<times> recurring_task list + recurring_task list" where
  "heappush heap item = siftdown (heap @ [item]) 0 (length heap)"

definition heappop ::
  "recurring_task list \<Rightarrow> exn \<times> recurring_task list + recurring_task \<times> recurring_task list" where
  "heappop heap =
     (if heap = [] then Inl (IndexError, heap)
      else if butlast heap \<noteq> [] then
        (case siftup ((butlast heap)[0 := last heap]) 0 of
           Inl r \<Rightarrow> Inl r
         | Inr heap' \<Rightarrow> Inr (heap ! 0, heap'))
      else Inr (last heap, []))"

fun heapify_loop ::
  "nat \<Rightarrow> recurring_task list \<Rightarrow> exn \<times> recurring_task list + recurring_task list" where
  "heapify_loop 0 x = Inr x"
| "heapify_loop (Suc i) x = (case siftup x i of Inl r \<Rightarrow> Inl r | Inr x' \<Rightarrow> heapify_loop i x')"

definition heapify :: "recurring_task list \<Rightarrow> exn \<times> recurring_task list + recurring_task list" where
  "heapify x = heapify_loop (length x div 2) x"

section \<open>BaseApp\<close>

record base_app_config_model =
  debug_mode :: bool
  minimum_downtime_duration :: seconds
  maximum_timer_slack :: seconds

text \<open>
  What the application writes to its logger and the call of its downtime hook
  \<open>handle_downtime\<close>, in the order they happen.
\<close>

datatype event =
    Sleeping seconds
  | Woken
  | Wait_exception
  | Detected_delay seconds
  | Executing_start string seconds
  | Executing_end string seconds
  | Handle_downtime int
  | Interrupted
  | Queue_exception
  | Propagating

text \<open>
  The state of the application together with its environment: the clock, the outcome of
  each \<open>time.sleep\<close> (it returns, or a signal handler or something else raises in it),
  and the counters that say which sleep and which handler call comes next.
\<close>

record base_app =
  recurring_tasks :: "recurring_task list"
  downtime :: float
  app_config :: base_app_config_model
  single_run :: bool
  clock :: clock
  sleep_outcomes :: "nat \<Rightarrow> outcome"
  sleeps :: nat
  handler_calls :: nat
  logged :: "event list"

definition ETERNITY :: seconds where
  "ETERNITY = 24 * 3600 * 1000000"

definition DEFAULT_TASK_INTERVAL :: seconds where
  "DEFAULT_TASK_INTERVAL = 10 * 1000000"

definition DEFAULT_MAXIMUM_TIMER_SLACK :: seconds where
  "DEFAULT_MAXIMUM_TIMER_SLACK = 5 * 1000000"

definition DEFAULT_MINIMUM_DOWNTIME_DURATION :: seconds where
  "DEFAULT_MINIMUM_DOWNTIME_DURATION = 20 * 1000000"

definition new_recurring_task :: "string \<Rightarrow> (nat \<Rightarrow> outcome) \<Rightarrow> seconds \<Rightarrow> bool \<Rightarrow> recurring_task" where
  "new_recurring_task p_name p_handler_method p_interval p_fixed_schedule =
     \<lparr>name = p_name, handler_method = p_handler_method, interval = p_interval,
      next_execution = None, fixed_schedule = p_fixed_schedule\<rparr>"

definition new_base_app_config_model :: base_app_config_model where
  "new_base_app_config_model =
     \<lparr>debug_mode = False, minimum_downtime_duration = DEFAULT_MINIMUM_DOWNTIME_DURATION,
      maximum_timer_slack = DEFAULT_MAXIMUM_TIMER_SLACK\<rparr>"

definition new_base_app :: "bool \<Rightarrow> (nat \<Rightarrow> datetime) \<Rightarrow> (nat \<Rightarrow> outcome) \<Rightarrow> base_app" where
  "new_base_app p_single_run p_readings p_sleep_outcomes =
     \<lparr>recurring_tasks = [], downtime = 0, app_config = new_base_app_config_model,
      single_run = p_single_run, clock = \<lparr>readings = p_readings, reads = 0\<rparr>,
      sleep_outcomes = p_sleep_outcomes, sleeps = 0, handler_calls = 0, logged = []\<rparr>"

definition log_event :: "event \<Rightarrow> base_app \<Rightarrow> base_app" where
  "log_event e app = app\<lparr>logged := logged app @ [e]\<rparr>"

definition reset_down_time :: "base_app \<Rightarrow> base_app" where
  "reset_down_time app = app\<lparr>downtime := 0\<rparr>"

definition add_recurring_task :: "recurring_task \<Rightarrow> base_app \<Rightarrow> exn \<times> base_app + base_app" where
  "add_recurring_task p_recurring_task app =
     (let (task, c) = compute_next_execution_time p_recurring_task (clock app) in
      case heappush (recurring_tasks app) task of
        Inl (e, heap) \<Rightarrow> Inl (e, app\<lparr>recurring_tasks := heap, clock := c\<rparr>)
      | Inr heap \<Rightarrow> Inr (app\<lparr>recurring_tasks := heap, clock := c\<rparr>))"

definition adapt_active_recurring_tasks :: "seconds \<Rightarrow> base_app \<Rightarrow> exn \<times> base_app + base_app" where
  "adapt_active_recurring_tasks p_delay app =
     (case heapify (map (adapt_to_delay p_delay) (recurring_tasks app)) of
        Inl (e, heap) \<Rightarrow> Inl (e, app\<lparr>recurring_tasks := heap\<rparr>)
      | Inr heap \<Rightarrow> Inr (app\<lparr>recurring_tasks := heap\<rparr>))"

definition track_downtime :: "seconds \<Rightarrow> base_app \<Rightarrow> exn \<times> base_app + base_app" where
  "track_downtime p_downtime app =
     adapt_active_recurring_tasks p_downtime
       ((log_event (Detected_delay p_downtime) app)
          \<lparr>downtime := float_add (downtime app) (total_seconds p_downtime)\<rparr>)"

definition handle_downtime :: "int \<Rightarrow> base_app \<Rightarrow> base_app" where
  "handle_downtime p_downtime app = log_event (Handle_downtime p_downtime) app"

subsection \<open>The event queue\<close>

text \<open>
  \<open>event_queue\<close> is one \<open>while not done\<close> loop around a \<open>try\<close>. Its body is
  given in the order of the source: the wait (\<open>interruptible_sleep\<close>, \<open>sleep_until_due\<close>),
  the loop that executes the due tasks (\<open>catch_up_step\<close> is one round of
  \<open>while task_executed\<close>), the report of the downtime, then the \<open>except\<close> clauses and the
  test of \<open>single_run\<close> (\<open>event_queue_cycle\<close>). An exception is \<open>Inl\<close> of the
  exception and the state at the moment it is raised.
\<close>

definition interruptible_sleep :: "seconds \<Rightarrow> base_app \<Rightarrow> exn \<times> base_app + base_app" where
  "interruptible_sleep wait_in_seconds app =
     (let app1 = (log_event (Sleeping wait_in_seconds) app)\<lparr>sleeps := Suc (sleeps app)\<rparr> in
      case sleep_outcomes app (sleeps app) of
        Returns \<Rightarrow> Inr (log_event Woken app1)
      | Raises e \<Rightarrow>
          if e = SignalHangUp then Inl (e, app1)
          else if debug_mode (app_config app) then Inl (e, log_event Propagating app1)
          else Inr (log_event Woken (log_event Wait_exception app1)))"

definition sleep_until_due :: "base_app \<Rightarrow> exn \<times> base_app + base_app" where
  "sleep_until_due app =
     (let (now, c) = utcnow (clock app); app1 = app\<lparr>clock := c\<rparr> in
      case recurring_tasks app1 of
        [] \<Rightarrow> interruptible_sleep ETERNITY app1
      | task # _ \<Rightarrow>
          (case next_execution task of
             None \<Rightarrow> Inl (TypeError, app1)
           | Some t \<Rightarrow>
               if t - now > 0 then
                 (case interruptible_sleep (t - now) app1 of
                    Inl r \<Rightarrow> Inl r
                  | Inr app2 \<Rightarrow>
                      (let (now', c') = utcnow (clock app2); app3 = app2\<lparr>clock := c'\<rparr>;
                           overslept_in_seconds = now' - t in
                       if overslept_in_seconds > maximum_timer_slack (app_config app3)
                       then track_downtime overslept_in_seconds app3
                       else Inr app3))
               else Inr app1))"

definition catch_up_step :: "base_app \<Rightarrow> exn \<times> base_app + base_app \<times> bool" where
  "catch_up_step app =
     (case recurring_tasks app of
        [] \<Rightarrow> Inl (IndexError, app)
      | task # _ \<Rightarrow>
          (let (now, c) = utcnow (clock app); app1 = app\<lparr>clock := c\<rparr> in
           case next_execution task of
             None \<Rightarrow> Inl (TypeError, app1)
           | Some t \<Rightarrow>
               if t < now then
                 (let delay = now - t in
                  case heappop (recurring_tasks app1) of
                    Inl (e, heap) \<Rightarrow> Inl (e, app1\<lparr>recurring_tasks := heap\<rparr>)
                  | Inr (task, heap) \<Rightarrow>
                      (case add_recurring_task task (app1\<lparr>recurring_tasks := heap\<rparr>) of
                         Inl r \<Rightarrow> Inl r
                       | Inr app2 \<Rightarrow>
                           (let app3 = (log_event (Executing_start (name task) delay) app2)
                                         \<lparr>handler_calls := Suc (handler_calls app2)\<rparr> in
                            case handler_method task (handler_calls app2) of
                              Raises e \<Rightarrow> Inl (e, app3)
                            | Returns \<Rightarrow>
                                (let app4 = log_event (Executing_end (name task) delay) app3 in
                                 if delay > minimum_downtime_duration (app_config app4) then
                                   (case track_downtime delay app4 of
                                      Inl r \<Rightarrow> Inl r
                                    | Inr app5 \<Rightarrow> Inr (app5, True))
                                 else Inr (app4, True)))))
               else Inr (app1, False)))"

text \<open>
  Nothing bounds the number of rounds of \<open>while task_executed\<close> (a task on a fixed
  schedule with interval zero stays due for ever), so the loop takes fuel, one unit for
  each round, and \<open>None\<close> says that the fuel did not suffice.
\<close>

fun catch_up :: "nat \<Rightarrow> base_app \<Rightarrow> (exn \<times> base_app + base_app) option" where
  "catch_up 0 app = None"
| "catch_up (Suc fuel) app =
     (case catch_up_step app of
        Inl r \<Rightarrow> Some (Inl r)
      | Inr (app', task_executed) \<Rightarrow>
          if task_executed then catch_up fuel app' else Some (Inr app'))"

definition report_downtime :: "base_app \<Rightarrow> base_app" where
  "report_downtime app =
     (if downtime app > 0
      then reset_down_time (handle_downtime (int_of_float (downtime app)) app)
      else app)"

definition event_queue_body :: "nat \<Rightarrow> base_app \<Rightarrow> (exn \<times> base_app + base_app) option" where
  "event_queue_body fuel app =
     (case sleep_until_due app of
        Inl r \<Rightarrow> Some (Inl r)
      | Inr app1 \<Rightarrow>
          if length (recurring_tasks app1) > 0 then
            (case catch_up fuel app1 of
               None \<Rightarrow> None
             | Some (Inl r) \<Rightarrow> Some (Inl r)
             | Some (Inr app2) \<Rightarrow> Some (Inr (report_downtime app2)))
          else Some (Inr app1))"

text \<open>
  One turn of \<open>while not done\<close>: \<open>Inl\<close> is an exception that leaves \<open>event_queue\<close>,
  \<open>Inr\<close> the state at the end of the turn with the value of \<open>done\<close>.
\<close>

definition event_queue_cycle :: "nat \<Rightarrow> base_app \<Rightarrow> (exn \<times> base_app + base_app \<times> bool) option" where
  "event_queue_cycle fuel app =
     (case event_queue_body fuel app of
        None \<Rightarrow> None
      | Some (Inr app1) \<Rightarrow> Some (Inr (app1, single_run app1))
      | Some (Inl (e, app1)) \<Rightarrow>
          if e = SignalHangUp then Some (Inr (log_event Interrupted app1, True))
          else if debug_mode (app_config app1) then Some (Inl (e, log_event Propagating app1))
          else Some (Inr (log_event Queue_exception app1, single_run app1)))"


text \<open>
  The tasks whose handlers the rounds of one \<open>while task_executed\<close> loop call, in the
  order of the calls, each as it stood at the head of the queue when its round began.
\<close>

fun executed :: "nat \<Rightarrow> base_app \<Rightarrow> recurring_task list" where
  "executed 0 app = []"
| "executed (Suc fuel) app =
     (case recurring_tasks app of
        [] \<Rightarrow> []
      | task # _ \<Rightarrow>
          (case catch_up_step app of
             Inl (e, app') \<Rightarrow> if handler_calls app' = Suc (handler_calls app) then [task] else []
           | Inr (app', task_executed) \<Rightarrow>
               if task_executed then task # executed fuel app' else []))"

section \<open>Properties of queues\<close>

text \<open>
  \<open>due\<close> reads the time a queued task is due at (a queued task has its
  \<open>next_execution\<close> set; without one \<open>due\<close> is 0). \<open>scheduled\<close> says that every task of
  a list has its \<open>next_execution\<close> set, and \<open>heap_from s\<close> that every position whose
  parent is at \<open>s\<close> or after it is due no earlier than its parent: \<open>heap_from 0\<close> is
  the heap invariant.
\<close>

definition due :: "recurring_task \<Rightarrow> datetime" where
  "due task = (case next_execution task of None \<Rightarrow> 0 | Some t \<Rightarrow> t)"

definition scheduled :: "recurring_task list \<Rightarrow> bool" where
  "scheduled heap = list_all (\<lambda>task. next_execution task \<noteq> None) heap"

definition heap_from :: "nat \<Rightarrow> recurring_task list \<Rightarrow> bool" where
  "heap_from s heap =
     (\<forall>j < length heap. 0 < j \<and> s \<le> (j - 1) div 2 \<longrightarrow> due (heap ! ((j - 1) div 2)) \<le> due (heap ! j))"

definition queue_ok :: "recurring_task list \<Rightarrow> bool" where
  "queue_ok heap = (scheduled heap \<and> heap_from 0 heap)"

text \<open>
  While an item travels, its place in the list is a hole: \<open>hole_inv s heap pos\<close> is the
  heap order below \<open>s\<close> on all pairs that do not touch \<open>pos\<close>, with the children of
  \<open>pos\<close> due no earlier than its parent. \<open>covers x heap pos\<close>: \<open>x\<close> may sit above the
  children of \<open>pos\<close>. \<open>below s p\<close>: position \<open>p\<close> is in the subtree of \<open>s\<close>.
\<close>

definition hole_inv :: "nat \<Rightarrow> recurring_task list \<Rightarrow> nat \<Rightarrow> bool" where
  "hole_inv s heap pos =
     ((\<forall>j < length heap. 0 < j \<and> s \<le> (j - 1) div 2 \<and> j \<noteq> pos \<and> (j - 1) div 2 \<noteq> pos
          \<longrightarrow> due (heap ! ((j - 1) div 2)) \<le> due (heap ! j))
      \<and> (s < pos \<longrightarrow> (\<forall>c < length heap. 0 < c \<and> (c - 1) div 2 = pos
          \<longrightarrow> due (heap ! ((pos - 1) div 2)) \<le> due (heap ! c))))"

definition covers :: "recurring_task \<Rightarrow> recurring_task list \<Rightarrow> nat \<Rightarrow> bool" where
  "covers x heap pos = (\<forall>c < length heap. 0 < c \<and> (c - 1) div 2 = pos \<longrightarrow> due x \<le> due (heap ! c))"

inductive below :: "nat \<Rightarrow> nat \<Rightarrow> bool" where
  below_refl: "below s s"
| below_child: "below s p \<Longrightarrow> 0 < c \<Longrightarrow> (c - 1) div 2 = p \<Longrightarrow> below s c"

subsection \<open>What a phase of the event queue keeps\<close>

text \<open>
  \<open>hook_calls\<close> lists the arguments of the calls of \<open>handle_downtime\<close> so far.
  \<open>as_created\<close> is a task without its schedule, as \<open>RecurringTask\<close> constructs it:
  its name, handler, interval and kind of schedule. \<open>keeps_tasks app app'\<close>: the queue of
  \<open>app'\<close> is a heap of scheduled tasks, the very tasks of \<open>app\<close> up to their
  \<open>next_execution\<close>, and the configuration, the run mode, the clock's readings and the
  calls of the hook are those of \<open>app\<close>.
\<close>

fun hook_call :: "event \<Rightarrow> int list" where
  "hook_call (Handle_downtime p_downtime) = [p_downtime]"
| "hook_call _ = []"

definition hook_calls :: "base_app \<Rightarrow> int list" where
  "hook_calls app = concat (map hook_call (logged app))"

definition as_created :: "recurring_task \<Rightarrow> recurring_task" where
  "as_created task = task\<lparr>next_execution := None\<rparr>"

definition keeps_tasks :: "base_app \<Rightarrow> base_app \<Rightarrow> bool" where
  "keeps_tasks app app' =
     (queue_ok (recurring_tasks app')
      \<and> image_mset as_created (mset (recurring_tasks app'))
          = image_mset as_created (mset (recurring_tasks app))
      \<and> app_config app' = app_config app \<and> single_run app' = single_run app
      \<and> readings (clock app') = readings (clock app)
      \<and> hook_calls app' = hook_calls app)"

subsection \<open>Queues reached from the empty queue\<close>

text \<open>
  The states the operations of the queue lead to from an empty queue: registering a task,
  popping the earliest task and adding it again, shifting all tasks, and anything that
  leaves the queue alone.
\<close>

inductive queue_reachable :: "base_app \<Rightarrow> bool" where
  reach_empty: "recurring_tasks app = [] \<Longrightarrow> queue_reachable app"
| reach_register:
    "queue_reachable app \<Longrightarrow> add_recurring_task task app = Inr app' \<Longrightarrow> queue_reachable app'"
| reach_reinsert:
    "queue_reachable app \<Longrightarrow> heappop (recurring_tasks app) = Inr (task, heap)
      \<Longrightarrow> add_recurring_task task (app\<lparr>recurring_tasks := heap\<rparr>) = Inr app'
      \<Longrightarrow> queue_reachable app'"
| reach_shift:
    "queue_reachable app \<Longrightarrow> adapt_active_recurring_tasks p_delay app = Inr app'
      \<Longrightarrow> queue_reachable app'"
| reach_elsewhere:
    "queue_reachable app \<Longrightarrow> recurring_tasks app' = recurring_tasks app \<Longrightarrow> queue_reachable app'"

section \<open>Configuration\<close>

text \<open>
  The value of an attribute of a section: a Boolean, an integer, a string, \<open>None\<close>, a
  type object (given by its \<open>__name__\<close>) or an object of any other class (given by the
  name of its class; such an object has no \<open>__name__\<close> of its own). Strings are ASCII.
\<close>

datatype pyvalue = PyBool bool | PyInt int | PyStr string | PyNone | PyType string | PyOther string

datatype config_exn = ConfigurationException | AttributeError | KeyError

definition NONE_BOOLEAN :: pyvalue where "NONE_BOOLEAN = PyType ''bool''"
definition NONE_INTEGER :: pyvalue where "NONE_INTEGER = PyType ''int''"
definition NONE_STRING :: pyvalue where "NONE_STRING = PyType ''str''"

definition VALID_BOOLEAN_TRUE_VALUES :: "string list" where
  "VALID_BOOLEAN_TRUE_VALUES = [''1'', ''TRUE'', ''T'', ''YES'', ''WAHR'', ''JA'', ''J'']"

definition VALID_BOOLEAN_FALSE_VALUES :: "string list" where
  "VALID_BOOLEAN_FALSE_VALUES = [''0'', ''FALSE'', ''F'', ''NO'', ''FALSCH'', ''NEIN'', ''N'']"

definition NONE_TYPE_PREFIX :: string where
  "NONE_TYPE_PREFIX = ''_TYPE_''"

text \<open>\<open>type(v).__name__\<close>, and \<open>str.upper\<close> on ASCII.\<close>

fun type_name :: "pyvalue \<Rightarrow> string" where
  "type_name (PyBool _) = ''bool''"
| "type_name (PyInt _) = ''int''"
| "type_name (PyStr _) = ''str''"
| "type_name PyNone = ''NoneType''"
| "type_name (PyType _) = ''type''"
| "type_name (PyOther c) = c"

definition upper_char :: "char \<Rightarrow> char" where
  "upper_char c =
     (case map_of (zip ''abcdefghijklmnopqrstuvwxyz'' ''ABCDEFGHIJKLMNOPQRSTUVWXYZ'') c of
        None \<Rightarrow> c
      | Some u \<Rightarrow> u)"

definition upper :: "string \<Rightarrow> string" where
  "upper s = map upper_char s"

text \<open>
  A \<open>ConfigModel\<close> is its \<open>__dict__\<close>. \<open>__setattr__\<close> files a type object under the
  name with the prefix \<open>_TYPE_\<close> and anything else under the name itself.
\<close>

record config_model =
  attributes :: "string \<rightharpoonup> pyvalue"

definition setattr :: "config_model \<Rightarrow> string \<Rightarrow> pyvalue \<Rightarrow> config_model" where
  "setattr section p_option_name p_value =
     (case p_value of
        PyType _ \<Rightarrow> section\<lparr>attributes := (attributes section)(NONE_TYPE_PREFIX @ p_option_name \<mapsto> p_value)\<rparr>
      | _ \<Rightarrow> section\<lparr>attributes := (attributes section)(p_option_name \<mapsto> p_value)\<rparr>)"

definition new_config_model :: "string \<Rightarrow> config_model" where
  "new_config_model p_section_name =
     setattr (setattr \<lparr>attributes = Map.empty\<rparr> ''section_name'' (PyStr p_section_name))
       ''_options'' (PyOther ''dict'')"

text \<open>
  The section of \<open>BaseAppConfigModel\<close>, as its constructor leaves it; the durations are
  in seconds here, as the configuration holds them.
\<close>

definition new_base_app_section :: "string \<Rightarrow> config_model" where
  "new_base_app_section p_section_name =
     setattr (setattr (setattr (setattr (setattr (new_config_model p_section_name)
       ''debug_mode'' (PyBool False))
       ''log_level'' NONE_STRING)
       ''spool_dir'' NONE_STRING)
       ''minimum_downtime_duration'' (PyInt 20))
       ''maximum_timer_slack'' (PyInt 5)"

definition get_option_type :: "config_model \<Rightarrow> string \<Rightarrow> config_exn + string" where
  "get_option_type section p_option_name =
     (case attributes section (NONE_TYPE_PREFIX @ p_option_name) of
        Some (PyType t) \<Rightarrow> Inr t
      | Some PyNone \<Rightarrow>
          (case attributes section p_option_name of
             None \<Rightarrow> Inl KeyError
           | Some v \<Rightarrow> Inr (type_name v))
      | None \<Rightarrow>
          (case attributes section p_option_name of
             None \<Rightarrow> Inl KeyError
           | Some v \<Rightarrow> Inr (type_name v))
      | Some _ \<Rightarrow> Inl AttributeError)"

definition has_option :: "config_model \<Rightarrow> string \<Rightarrow> bool" where
  "has_option section p_option_name =
     (p_option_name \<in> dom (attributes section)
      \<or> NONE_TYPE_PREFIX @ p_option_name \<in> dom (attributes section))"

record configuration =
  sections :: "string \<rightharpoonup> config_model"

text \<open>
  \<open>to_int\<close> is Python's \<open>int\<close> on a string: the number, or \<open>None\<close> where \<open>int\<close>
  raises. An exception is \<open>Inl\<close> of the exception and the configuration at that moment.
\<close>

definition set_config_value ::
  "(string \<Rightarrow> int option) \<Rightarrow> configuration \<Rightarrow> string \<Rightarrow> string \<Rightarrow> string
     \<Rightarrow> config_exn \<times> configuration + configuration" where
  "set_config_value to_int config p_section_name p_option p_option_value =
     (case sections config p_section_name of
        None \<Rightarrow> Inl (ConfigurationException, config)
      | Some section \<Rightarrow>
          if \<not> has_option section p_option then Inl (ConfigurationException, config)
          else
            (case get_option_type section p_option of
               Inl e \<Rightarrow> Inl (e, config)
             | Inr option_type \<Rightarrow>
                 (let upper_value = upper p_option_value;
                      store = (\<lambda>v. Inr (config\<lparr>sections :=
                                 (sections config)(p_section_name \<mapsto> setattr section p_option v)\<rparr>))
                  in if option_type = ''bool'' then
                       (if upper_value \<in> set VALID_BOOLEAN_TRUE_VALUES then store (PyBool True)
                        else if upper_value \<in> set VALID_BOOLEAN_FALSE_VALUES then store (PyBool False)
                        else Inl (ConfigurationException, config))
                     else if option_type = ''int'' then
                       (case to_int p_option_value of
                          Some intValue \<Rightarrow> store (PyInt intValue)
                        | None \<Rightarrow> Inl (ConfigurationException, config))
                     else store (PyStr p_option_value))))"

text \<open>
  A decimal reading of ASCII digits with an optional sign, for the scenarios: the part of
  \<open>int\<close> they need.
\<close>

definition digit_of :: "char \<Rightarrow> nat option" where
  "digit_of c = map_of (zip ''0123456789'' [0, 1, 2, 3, 4, 5, 6, 7, 8, 9]) c"

fun digits_value :: "nat \<Rightarrow> string \<Rightarrow> nat option" where
  "digits_value acc [] = Some acc"
| "digits_value acc (c # cs) =
     (case digit_of c of None \<Rightarrow> None | Some d \<Rightarrow> digits_value (10 * acc + d) cs)"

definition decimal_int :: "string \<Rightarrow> int option" where
  "decimal_int s =
     (case s of
        [] \<Rightarrow> None
      | c # cs \<Rightarrow>
          if c = CHR ''-'' then (if cs = [] then None else map_option (\<lambda>n. - int n) (digits_value 0 cs))
          else if c = CHR ''+'' then (if cs = [] then None else map_option int (digits_value 0 cs))
          else map_option int (digits_value 0 s))"

text \<open>
  \<open>marker_ok\<close>: what the section holds under the option's name with the prefix
  \<open>_TYPE_\<close>, if anything, is a type, as \<open>__setattr__\<close> leaves it, or \<open>None\<close>
  beside a value under the name itself.
\<close>

definition marker_ok :: "config_model \<Rightarrow> string \<Rightarrow> bool" where
  "marker_ok section p_option_name =
     (case attributes section (NONE_TYPE_PREFIX @ p_option_name) of
        None \<Rightarrow> True
      | Some (PyType t) \<Rightarrow> True
      | Some PyNone \<Rightarrow> p_option_name \<in> dom (attributes section)
      | Some _ \<Rightarrow> False)"

section \<open>Scenarios\<close>

text \<open>
  Two builders for concrete scenarios: a task that is already scheduled for a given time,
  and an application that holds a given queue, with a clock that reads \<open>now\<close> and
  advances by one microsecond at each reading.
\<close>

definition scenario_task :: "string \<Rightarrow> datetime \<Rightarrow> recurring_task" where
  "scenario_task p_name t =
     (new_recurring_task p_name (\<lambda>_. Returns) DEFAULT_TASK_INTERVAL False)\<lparr>next_execution := Some t\<rparr>"

definition scenario_app :: "recurring_task list \<Rightarrow> datetime \<Rightarrow> base_app" where
  "scenario_app queue now =
     (new_base_app False (\<lambda>k. now + int k) (\<lambda>_. Returns))\<lparr>recurring_tasks := queue\<rparr>"

text \<open>
  The application registers its tasks one after the other at startup. \<open>tie_clock\<close>
  is a clock whose second and third readings are the same microsecond.
\<close>

definition tie_clock :: "nat \<Rightarrow> datetime" where
  "tie_clock k = (if k = 0 then 1 else if k \<le> 2 then 2 else if k = 3 then 3 else 100 + int k)"

fun register_all :: "recurring_task list \<Rightarrow> base_app \<Rightarrow> exn \<times> base_app + base_app" where
  "register_all [] app = Inr app"
| "register_all (task # tasks) app =
     (case add_recurring_task task app of Inl r \<Rightarrow> Inl r | Inr app' \<Rightarrow> register_all tasks app')"

section \<open>The heap queue keeps the heap order\<close>

lemma below_le: "below s p \<Longrightarrow> s \<le> p"
  by (induction rule: below.induct) auto

lemma below_parent: "below s p \<Longrightarrow> s < p \<Longrightarrow> below s ((p - 1) div 2) \<and> s \<le> (p - 1) div 2"
  by (induction rule: below.induct) (auto dest: below_le)

lemma below_zero: "below 0 p"
proof (induction p rule: less_induct)
  case (less p)
  show ?case
  proof (cases "p = 0")
    case True then show ?thesis by (simp add: below_refl)
  next
    case False
    then have "below 0 ((p - 1) div 2)" using less by simp
    then show ?thesis using False by (auto intro: below_child)
  qed
qed

lemma task_lt_scheduled:
  "next_execution a \<noteq> None \<Longrightarrow> next_execution b \<noteq> None \<Longrightarrow> task_lt a b = Inr (due a < due b)"
  by (auto simp: task_lt_def due_def)

lemma scheduled_nth: "scheduled heap \<Longrightarrow> i < length heap \<Longrightarrow> next_execution (heap ! i) \<noteq> None"
  by (simp add: scheduled_def list_all_length)

lemma scheduled_update:
  "scheduled heap \<Longrightarrow> next_execution x \<noteq> None \<Longrightarrow> scheduled (heap[i := x])"
  unfolding scheduled_def list_all_iff by (auto dest: set_update_subset_insert [THEN subsetD])

lemma mset_move:
  assumes "p < length h" "q < length h" "p \<noteq> q"
  shows "mset (h[p := h ! q, q := x]) = mset (h[p := x])"
  using assms by (simp add: mset_update nth_list_update)


lemma hole_fill:
  assumes inv: "hole_inv s h pos" and len: "pos < length h" and cov: "covers x h pos"
    and par: "s < pos \<longrightarrow> due (h ! ((pos - 1) div 2)) \<le> due x" and ge: "s \<le> pos"
  shows "heap_from s (h[pos := x])"
  unfolding heap_from_def
proof (intro allI impI)
  fix j assume j: "j < length (h[pos := x])" and h: "0 < j \<and> s \<le> (j - 1) div 2"
  let ?q = "(j - 1) div 2"
  have jl: "j < length h" using j by simp
  have ql: "?q < j" using h by arith
  show "due (h[pos := x] ! ?q) \<le> due (h[pos := x] ! j)"
  proof (cases "j = pos")
    case True
    then have "s < pos" using h ql by arith
    then show ?thesis using True par len ql by (simp add: nth_list_update)
  next
    case False
    show ?thesis
    proof (cases "?q = pos")
      case True
      then show ?thesis using cov False jl h len unfolding covers_def by (simp add: nth_list_update)
    next
      case qf: False
      then show ?thesis using inv False jl h unfolding hole_inv_def by (simp add: nth_list_update)
    qed
  qed
qed

lemma hole_step_up:
  assumes inv: "hole_inv s h pos" and bel: "below s pos" and gt: "s < pos" and len: "pos < length h"
    and cov: "covers x h pos" and lt: "due x < due (h ! ((pos - 1) div 2))"
  shows "hole_inv s (h[pos := h ! ((pos - 1) div 2)]) ((pos - 1) div 2)
       \<and> covers x (h[pos := h ! ((pos - 1) div 2)]) ((pos - 1) div 2)"
proof -
  let ?q = "(pos - 1) div 2"
  let ?h = "h[pos := h ! ?q]"
  have pos0: "0 < pos" using gt by simp
  have qpos: "?q < pos" using pos0 by arith
  have sq: "s \<le> ?q" and belq: "below s ?q" using below_parent [OF bel gt] by simp_all
  have A: "\<And>j. j < length h \<Longrightarrow> 0 < j \<Longrightarrow> s \<le> (j - 1) div 2 \<Longrightarrow> j \<noteq> pos \<Longrightarrow> (j - 1) div 2 \<noteq> pos
              \<Longrightarrow> due (h ! ((j - 1) div 2)) \<le> due (h ! j)"
    using inv unfolding hole_inv_def by blast
  have C: "\<And>c. c < length h \<Longrightarrow> 0 < c \<Longrightarrow> (c - 1) div 2 = pos \<Longrightarrow> due (h ! ?q) \<le> due (h ! c)"
    using inv gt unfolding hole_inv_def by blast
  have cov': "covers x ?h ?q"
    unfolding covers_def
  proof (intro allI impI)
    fix c assume c: "c < length ?h" and cc: "0 < c \<and> (c - 1) div 2 = ?q"
    show "due x \<le> due (?h ! c)"
    proof (cases "c = pos")
      case True then show ?thesis using lt len by simp
    next
      case False
      have "due (h ! ?q) \<le> due (h ! c)" using A [of c] c cc False sq qpos by simp
      then show ?thesis using lt False by simp
    qed
  qed
  have inv': "hole_inv s ?h ?q"
    unfolding hole_inv_def
  proof (intro conjI allI impI)
    fix j assume j: "j < length ?h"
      and h: "0 < j \<and> s \<le> (j - 1) div 2 \<and> j \<noteq> ?q \<and> (j - 1) div 2 \<noteq> ?q"
    have jl: "j < length h" using j by simp
    have jp: "j \<noteq> pos" using h by auto
    show "due (?h ! ((j - 1) div 2)) \<le> due (?h ! j)"
    proof (cases "(j - 1) div 2 = pos")
      case True
      then show ?thesis using C [of j] jl h jp len by simp
    next
      case False
      then show ?thesis using A [of j] jl h jp by simp
    qed
  next
    fix c assume sq': "s < ?q" and c: "c < length ?h" and cc: "0 < c \<and> (c - 1) div 2 = ?q"
    have q0: "0 < ?q" using sq' by simp
    have pq: "(?q - 1) div 2 < ?q" using q0 by arith
    have spq: "s \<le> (?q - 1) div 2" using below_parent [OF belq sq'] by simp
    have ql: "?q < length h" using qpos len by simp
    have e1: "due (h ! ((?q - 1) div 2)) \<le> due (h ! ?q)"
      using A [of ?q] ql q0 spq qpos pq by simp
    have ne: "(?q - 1) div 2 \<noteq> pos" using pq qpos by simp
    show "due (?h ! ((?q - 1) div 2)) \<le> due (?h ! c)"
    proof (cases "c = pos")
      case True then show ?thesis using e1 ne len by simp
    next
      case False
      have "due (h ! ?q) \<le> due (h ! c)" using A [of c] c cc False sq qpos by simp
      then show ?thesis using e1 ne False by simp
    qed
  qed
  show ?thesis using inv' cov' by simp
qed

lemma siftdown_loop_heap:
  assumes "hole_inv s h pos" "below s pos" "pos < length h" "scheduled h"
    "next_execution x \<noteq> None" "covers x h pos"
  shows "\<exists>h'. siftdown_loop h s pos x = Inr h' \<and> heap_from s h' \<and> length h' = length h
            \<and> mset h' = mset (h[pos := x]) \<and> scheduled h'"
  using assms
proof (induction h s pos x rule: siftdown_loop.induct)
  case (1 heap startpos pos newitem)
  let ?q = "(pos - 1) div 2"
  show ?case
  proof (cases "startpos < pos")
    case False
    then have "heap_from startpos (heap[pos := newitem])"
      using hole_fill [of startpos heap pos newitem] "1.prems" below_le [of startpos pos] by simp
    then show ?thesis using False "1.prems"
      by (subst siftdown_loop.simps) (simp add: scheduled_update)
  next
    case True
    have qpos: "?q < pos" using True by arith
    have ql: "?q < length heap" using qpos "1.prems" by simp
    have lt: "task_lt newitem (heap ! ?q) = Inr (due newitem < due (heap ! ?q))"
      using task_lt_scheduled "1.prems" scheduled_nth [OF _ ql] by simp
    show ?thesis
    proof (cases "due newitem < due (heap ! ?q)")
      case less: True
      let ?h = "heap[pos := heap ! ?q]"
      have st: "hole_inv startpos ?h ?q \<and> covers newitem ?h ?q"
        using hole_step_up [of startpos heap pos newitem] "1.prems" True less by simp
      have sch: "scheduled ?h" using "1.prems" scheduled_nth [OF _ ql] by (simp add: scheduled_update)
      have "\<exists>h'. siftdown_loop ?h startpos ?q newitem = Inr h' \<and> heap_from startpos h'
              \<and> length h' = length ?h \<and> mset h' = mset (?h[?q := newitem]) \<and> scheduled h'"
        using "1.IH" [OF True lt less] st below_parent [OF "1.prems"(2) True] ql sch "1.prems"
        by simp
      then obtain h' where h': "siftdown_loop ?h startpos ?q newitem = Inr h'" "heap_from startpos h'"
          "length h' = length ?h" "mset h' = mset (?h[?q := newitem])" "scheduled h'" by blast
      have "mset (?h[?q := newitem]) = mset (heap[pos := newitem])"
        using mset_move [of pos heap ?q newitem] "1.prems" ql qpos by simp
      then show ?thesis using h' True lt less
        by (subst siftdown_loop.simps) simp
    next
      case nless: False
      then have "heap_from startpos (heap[pos := newitem])"
        using hole_fill [of startpos heap pos newitem] "1.prems" True by simp
      then show ?thesis using True lt nless "1.prems"
        by (subst siftdown_loop.simps) (simp add: scheduled_update)
    qed
  qed
qed


lemma hole_step_down:
  assumes inv: "hole_inv s h pos" and bel: "below s pos" and len: "c < length h"
    and child: "0 < c" "(c - 1) div 2 = pos"
    and least: "\<forall>d < length h. 0 < d \<and> (d - 1) div 2 = pos \<longrightarrow> due (h ! c) \<le> due (h ! d)"
  shows "hole_inv s (h[pos := h ! c]) c"
proof -
  let ?h = "h[pos := h ! c]"
  have pc: "pos < c" using child by arith
  have pl: "pos < length h" using pc len by simp
  have sp: "s \<le> pos" using below_le [OF bel] .
  have A: "\<And>j. j < length h \<Longrightarrow> 0 < j \<Longrightarrow> s \<le> (j - 1) div 2 \<Longrightarrow> j \<noteq> pos \<Longrightarrow> (j - 1) div 2 \<noteq> pos
              \<Longrightarrow> due (h ! ((j - 1) div 2)) \<le> due (h ! j)"
    using inv unfolding hole_inv_def by blast
  have C: "\<And>d. s < pos \<Longrightarrow> d < length h \<Longrightarrow> 0 < d \<Longrightarrow> (d - 1) div 2 = pos
              \<Longrightarrow> due (h ! ((pos - 1) div 2)) \<le> due (h ! d)"
    using inv unfolding hole_inv_def by blast
  show ?thesis
    unfolding hole_inv_def
  proof (intro conjI allI impI)
    fix j assume j: "j < length ?h"
      and h: "0 < j \<and> s \<le> (j - 1) div 2 \<and> j \<noteq> c \<and> (j - 1) div 2 \<noteq> c"
    have jl: "j < length h" using j by simp
    have pj: "(j - 1) div 2 < j" using h by arith
    show "due (?h ! ((j - 1) div 2)) \<le> due (?h ! j)"
    proof (cases "j = pos")
      case True
      then have "s < pos" using h pj by arith
      then have "due (h ! ((pos - 1) div 2)) \<le> due (h ! c)" using C [of c] len child by simp
      then show ?thesis using True pj pl by simp
    next
      case False
      show ?thesis
      proof (cases "(j - 1) div 2 = pos")
        case True
        then show ?thesis using least jl h False pl by simp
      next
        case nf: False
        then show ?thesis using A [of j] jl h False by simp
      qed
    qed
  next
    fix d assume sc: "s < c" and d: "d < length ?h" and dd: "0 < d \<and> (d - 1) div 2 = c"
    have cd: "c < d" using dd by arith
    have "due (h ! c) \<le> due (h ! d)" using A [of d] d dd cd pc sp by simp
    then show "due (?h ! ((c - 1) div 2)) \<le> due (?h ! d)" using child cd pc pl by simp
  qed
qed

lemma siftup_loop_hole:
  assumes "hole_inv s h pos" "below s pos" "pos < length h" "scheduled h"
  shows "\<exists>h' leaf. siftup_loop h pos = Inr (h', leaf) \<and> hole_inv s h' leaf \<and> below s leaf
            \<and> leaf < length h' \<and> length h' = length h \<and> \<not> 2 * leaf + 1 < length h'
            \<and> (\<forall>x. mset (h'[leaf := x]) = mset (h[pos := x])) \<and> scheduled h'"
  using assms
proof (induction h pos rule: siftup_loop.induct)
  case (1 heap pos)
  let ?l = "2 * pos + 1" and ?r = "2 * pos + 2"
  show ?case
  proof (cases "?l < length heap")
    case False
    then show ?thesis using "1.prems" by (subst siftup_loop.simps) simp
  next
    case l: True
    have step: "\<exists>h' leaf. siftup_loop (heap[pos := heap ! c]) c = Inr (h', leaf) \<and> hole_inv s h' leaf
            \<and> below s leaf \<and> leaf < length h' \<and> length h' = length heap \<and> \<not> 2 * leaf + 1 < length h'
            \<and> (\<forall>x. mset (h'[leaf := x]) = mset (heap[pos := x])) \<and> scheduled h'"
      if c: "c = ?l \<or> c = ?r" "c < length heap"
        and least: "\<forall>d < length heap. 0 < d \<and> (d - 1) div 2 = pos \<longrightarrow> due (heap ! c) \<le> due (heap ! d)"
        and ih: "\<lbrakk>hole_inv s (heap[pos := heap ! c]) c; below s c; c < length (heap[pos := heap ! c]);
                 scheduled (heap[pos := heap ! c])\<rbrakk> \<Longrightarrow>
               \<exists>h' leaf. siftup_loop (heap[pos := heap ! c]) c = Inr (h', leaf) \<and> hole_inv s h' leaf
                 \<and> below s leaf \<and> leaf < length h' \<and> length h' = length (heap[pos := heap ! c])
                 \<and> \<not> 2 * leaf + 1 < length h'
                 \<and> (\<forall>x. mset (h'[leaf := x]) = mset (heap[pos := heap ! c, c := x])) \<and> scheduled h'"
      for c
    proof -
      have ch: "0 < c" "(c - 1) div 2 = pos" using c(1) by auto
      have pc: "pos \<noteq> c" using ch by arith
      have i1: "hole_inv s (heap[pos := heap ! c]) c"
        using hole_step_down [OF "1.prems"(1,2) c(2) ch least] .
      have i2: "below s c" using below_child [OF "1.prems"(2) ch] .
      have i3: "scheduled (heap[pos := heap ! c])"
        using "1.prems"(4) scheduled_nth [OF "1.prems"(4) c(2)] by (simp add: scheduled_update)
      have mv: "\<And>x. mset (heap[pos := heap ! c, c := x]) = mset (heap[pos := x])"
        using mset_move [of pos heap c] "1.prems"(3) c(2) pc by simp
      show ?thesis using ih [OF i1 i2 _ i3] c(2) mv by simp
    qed
    show ?thesis
    proof (cases "?r < length heap")
      case False
      have least: "\<forall>d < length heap. 0 < d \<and> (d - 1) div 2 = pos \<longrightarrow> due (heap ! ?l) \<le> due (heap ! d)"
      proof (intro allI impI)
        fix d assume d: "d < length heap" "0 < d \<and> (d - 1) div 2 = pos"
        then have "d = ?l \<or> d = ?r" by arith
        then show "due (heap ! ?l) \<le> due (heap ! d)" using False d(1) by auto
      qed
      show ?thesis
        using step [of ?l, OF _ l least] "1.IH"(3) [OF l False] l False
        by (subst siftup_loop.simps) simp
    next
      case r: True
      have lt: "task_lt (heap ! ?l) (heap ! ?r) = Inr (due (heap ! ?l) < due (heap ! ?r))"
        using task_lt_scheduled scheduled_nth [OF "1.prems"(4)] l r by simp
      show ?thesis
      proof (cases "due (heap ! ?l) < due (heap ! ?r)")
        case True
        have least: "\<forall>d < length heap. 0 < d \<and> (d - 1) div 2 = pos \<longrightarrow> due (heap ! ?l) \<le> due (heap ! d)"
        proof (intro allI impI)
        fix d assume d: "d < length heap" "0 < d \<and> (d - 1) div 2 = pos"
        then have "d = ?l \<or> d = ?r" by arith
        then show "due (heap ! ?l) \<le> due (heap ! d)" using True d(1) by auto
      qed
        show ?thesis
          using step [of ?l, OF _ l least] "1.IH"(2) [OF l r lt] True l r lt
          by (subst siftup_loop.simps) simp
      next
        case False
        have least: "\<forall>d < length heap. 0 < d \<and> (d - 1) div 2 = pos \<longrightarrow> due (heap ! ?r) \<le> due (heap ! d)"
        proof (intro allI impI)
        fix d assume d: "d < length heap" "0 < d \<and> (d - 1) div 2 = pos"
        then have "d = ?l \<or> d = ?r" by arith
        then show "due (heap ! ?r) \<le> due (heap ! d)" using False d(1) by auto
      qed
        show ?thesis
          using step [of ?r, OF _ r least] "1.IH"(1) [OF l r lt] False l r lt
          by (subst siftup_loop.simps) simp
      qed
    qed
  qed
qed


lemma hole_inv_update:
  assumes inv: "hole_inv s h pos"
  shows "hole_inv s (h[pos := x]) pos"
  unfolding hole_inv_def
proof (intro conjI allI impI)
  fix j assume j: "j < length (h[pos := x])"
    and a: "0 < j \<and> s \<le> (j - 1) div 2 \<and> j \<noteq> pos \<and> (j - 1) div 2 \<noteq> pos"
  have "due (h ! ((j - 1) div 2)) \<le> due (h ! j)"
    using inv j a unfolding hole_inv_def by simp
  then show "due (h[pos := x] ! ((j - 1) div 2)) \<le> due (h[pos := x] ! j)" using a by simp
next
  fix c assume sp: "s < pos" and c: "c < length (h[pos := x])" and a: "0 < c \<and> (c - 1) div 2 = pos"
  have n1: "c \<noteq> pos" using a by arith
  have n2: "(pos - 1) div 2 \<noteq> pos" using sp by arith
  have "due (h ! ((pos - 1) div 2)) \<le> due (h ! c)"
    using inv sp c a unfolding hole_inv_def by simp
  then show "due (h[pos := x] ! ((pos - 1) div 2)) \<le> due (h[pos := x] ! c)"
    using n1 n2 by (simp add: nth_list_update_neq del: nth_list_update)
qed

lemma heap_from_hole: "heap_from (Suc s) h \<Longrightarrow> hole_inv s h s"
  unfolding heap_from_def hole_inv_def
  by (auto simp: Suc_le_eq le_neq_implies_less)

lemma leaf_covers: "\<not> 2 * leaf + 1 < length h \<Longrightarrow> covers x h leaf"
  unfolding covers_def
proof (intro allI impI)
  fix c assume a: "\<not> 2 * leaf + 1 < length h" "c < length h" "0 < c \<and> (c - 1) div 2 = leaf"
  then have "2 * leaf + 1 \<le> c" by arith
  then show "due x \<le> due (h ! c)" using a by simp
qed

lemma siftup_heap:
  assumes hp: "heap_from (Suc s) h" and len: "s < length h" and sch: "scheduled h"
  shows "\<exists>h'. siftup h s = Inr h' \<and> heap_from s h' \<and> length h' = length h
            \<and> mset h' = mset h \<and> scheduled h'"
proof -
  obtain h1 leaf where l: "siftup_loop h s = Inr (h1, leaf)" "hole_inv s h1 leaf" "below s leaf"
      "leaf < length h1" "length h1 = length h" "\<not> 2 * leaf + 1 < length h1"
      "\<forall>x. mset (h1[leaf := x]) = mset (h[s := x])" "scheduled h1"
    using siftup_loop_hole [OF heap_from_hole [OF hp] below_refl len sch] by blast
  let ?x = "h ! s" and ?h = "h1[leaf := h ! s]"
  have x: "next_execution ?x \<noteq> None" using scheduled_nth [OF sch len] .
  have "\<exists>h'. siftdown_loop ?h s leaf ?x = Inr h' \<and> heap_from s h' \<and> length h' = length ?h
            \<and> mset h' = mset (?h[leaf := ?x]) \<and> scheduled h'"
    using l x by (intro siftdown_loop_heap) (simp_all add: hole_inv_update leaf_covers scheduled_update)
  then obtain h' where h': "siftdown_loop ?h s leaf ?x = Inr h'" "heap_from s h'"
      "length h' = length ?h" "mset h' = mset (?h[leaf := ?x])" "scheduled h'" by blast
  have "mset h' = mset h" using h'(4) l(7) by simp
  then show ?thesis using h' l len by (simp add: siftup_def siftdown_def)
qed

lemma heappush_heap:
  assumes hp: "heap_from 0 h" and sch: "scheduled h" and x: "next_execution x \<noteq> None"
  shows "\<exists>h'. heappush h x = Inr h' \<and> heap_from 0 h' \<and> mset h' = add_mset x (mset h) \<and> scheduled h'"
proof -
  let ?h = "h @ [x]" and ?n = "length h"
  have inv: "hole_inv 0 ?h ?n"
    unfolding hole_inv_def
  proof (intro conjI allI impI)
    fix j assume j: "j < length ?h" and a: "0 < j \<and> 0 \<le> (j - 1) div 2 \<and> j \<noteq> ?n \<and> (j - 1) div 2 \<noteq> ?n"
    then have jl: "j < ?n" by simp
    then have "(j - 1) div 2 < ?n" by arith
    then show "due (?h ! ((j - 1) div 2)) \<le> due (?h ! j)"
      using hp jl a unfolding heap_from_def by (simp add: nth_append)
  next
    fix c assume "c < length ?h" "0 < c \<and> (c - 1) div 2 = ?n"
    then have False by simp arith
    then show "due (?h ! ((?n - 1) div 2)) \<le> due (?h ! c)" ..
  qed
  have sch': "scheduled ?h" using sch x by (simp add: scheduled_def)
  have "\<exists>h'. siftdown_loop ?h 0 ?n x = Inr h' \<and> heap_from 0 h' \<and> length h' = length ?h
            \<and> mset h' = mset (?h[?n := x]) \<and> scheduled h'"
    using inv sch' x by (intro siftdown_loop_heap) (simp_all add: below_zero leaf_covers)
  then show ?thesis by (auto simp: heappush_def siftdown_def)
qed

lemma heappop_heap:
  assumes hp: "heap_from 0 h" and sch: "scheduled h" and ne: "h \<noteq> []"
  shows "\<exists>h'. heappop h = Inr (h ! 0, h') \<and> heap_from 0 h' \<and> add_mset (h ! 0) (mset h') = mset h
            \<and> scheduled h'"
proof (cases "butlast h = []")
  case True
  then have "h = [last h]" using ne by (metis append_butlast_last_id append_Nil)
  then have "h = [h ! 0]" by (metis nth_Cons_0)
  then obtain x where "h = [x]" by blast
  then show ?thesis by (simp add: heappop_def heap_from_def scheduled_def)
next
  case False
  let ?b = "butlast h" and ?h = "(butlast h)[0 := last h]"
  have bl: "0 < length ?b" using False by (simp del: length_butlast)
  have hp1: "heap_from (Suc 0) ?h"
    unfolding heap_from_def
  proof (intro allI impI)
    fix j assume j: "j < length ?h" and a: "0 < j \<and> Suc 0 \<le> (j - 1) div 2"
    then have "j < length h - 1" "(j - 1) div 2 < length h - 1" "(j - 1) div 2 \<noteq> 0" "j < length h"
      by auto
    then show "due (?h ! ((j - 1) div 2)) \<le> due (?h ! j)"
      using hp a unfolding heap_from_def by (simp add: nth_butlast)
  qed
  have lst: "next_execution (last h) \<noteq> None"
    using sch ne unfolding scheduled_def list_all_iff by simp
  have "scheduled ?b" using sch unfolding scheduled_def list_all_iff by (auto dest: in_set_butlastD)
  then have sch': "scheduled ?h" using lst by (simp add: scheduled_update)
  obtain h' where h': "siftup ?h 0 = Inr h'" "heap_from 0 h'" "mset h' = mset ?h" "scheduled h'"
    using siftup_heap [OF hp1 _ sch'] bl by auto
  have "mset ?h = add_mset (last h) (mset ?b - {#?b ! 0#})" using bl by (simp add: mset_update)
  moreover have "mset h = add_mset (last h) (mset ?b)"
    using ne by (metis append_butlast_last_id mset.simps(2) mset_append union_mset_add_mset_right add.right_neutral mset.simps(1))
  moreover have "?b ! 0 = h ! 0" using bl by (simp add: nth_butlast)
  moreover have "?b ! 0 \<in># mset ?b" using bl by simp
  ultimately have "add_mset (h ! 0) (mset h') = mset h" using h'(3) by simp
  then show ?thesis using h' False ne by (simp add: heappop_def)
qed

lemma heapify_loop_heap:
  assumes "heap_from i h" "i \<le> length h" "scheduled h"
  shows "\<exists>h'. heapify_loop i h = Inr h' \<and> heap_from 0 h' \<and> mset h' = mset h \<and> scheduled h'"
  using assms
proof (induction i arbitrary: h)
  case 0
  then show ?case by simp
next
  case (Suc i)
  obtain h1 where h1: "siftup h i = Inr h1" "heap_from i h1" "length h1 = length h"
      "mset h1 = mset h" "scheduled h1"
    using siftup_heap [of i h] Suc.prems by auto
  then show ?case using Suc.IH [of h1] Suc.prems by auto
qed

lemma heapify_heap:
  assumes "scheduled h"
  shows "\<exists>h'. heapify h = Inr h' \<and> heap_from 0 h' \<and> mset h' = mset h \<and> scheduled h'"
proof -
  have "heap_from (length h div 2) h"
    unfolding heap_from_def
  proof (intro allI impI)
    fix j assume "j < length h" "0 < j \<and> length h div 2 \<le> (j - 1) div 2"
    then have False by arith
    then show "due (h ! ((j - 1) div 2)) \<le> due (h ! j)" ..
  qed
  then show ?thesis using heapify_loop_heap [of "length h div 2" h] assms by (simp add: heapify_def)
qed

lemma heap_root_least:
  assumes "heap_from 0 h" "j < length h"
  shows "due (h ! 0) \<le> due (h ! j)"
  using assms(2)
proof (induction j rule: less_induct)
  case (less j)
  show ?case
  proof (cases "j = 0")
    case True then show ?thesis by simp
  next
    case False
    then have "(j - 1) div 2 < j" by arith
    moreover have "due (h ! ((j - 1) div 2)) \<le> due (h ! j)"
      using assms(1) less.prems False unfolding heap_from_def by simp
    ultimately show ?thesis using less.IH [of "(j - 1) div 2"] less.prems by simp
  qed
qed

section \<open>Evaluation and the operations of the queue\<close>

lemma floor_rat_numeral [simp]: "\<lfloor>numeral a / numeral b :: rat\<rfloor> = numeral a div numeral b"
  by (metis floor_divide_of_int_eq of_int_numeral)

lemma round_to_53_numeral:
  "round_to_53 (numeral k) a =
     (if 2 ^ 53 \<le> a then 2 * round_to_53 (pred_numeral k) (a / 2)
      else if a < 2 ^ 52 then round_to_53 (pred_numeral k) (a * 2) / 2
      else of_int (round_half_even a))"
  by (simp add: numeral_eq_Suc)

lemmas float_defs = to_float_def float_add_def total_seconds_def int_of_float_def
  round_half_even_def round_to_53_numeral Let_def

lemmas model_defs = catch_up_step_def utcnow_def heappop_def siftup_def siftdown_def add_recurring_task_def
     compute_next_execution_time_def heappush_def log_event_def track_downtime_def adapt_active_recurring_tasks_def
     heapify_def adapt_to_delay_def task_lt_def siftdown_loop.simps siftup_loop.simps Let_def
     new_recurring_task_def new_base_app_def new_base_app_config_model_def
     DEFAULT_MINIMUM_DOWNTIME_DURATION_def DEFAULT_MAXIMUM_TIMER_SLACK_def DEFAULT_TASK_INTERVAL_def
     scenario_task_def scenario_app_def

lemma catch_up_numeral:
  "catch_up (numeral k) app =
     (case catch_up_step app of
        Inl r \<Rightarrow> Some (Inl r)
      | Inr (app', task_executed) \<Rightarrow>
          if task_executed then catch_up (pred_numeral k) app' else Some (Inr app'))"
  by (simp add: numeral_eq_Suc)

lemma executed_numeral:
  "executed (numeral k) app =
     (case recurring_tasks app of
        [] \<Rightarrow> []
      | task # _ \<Rightarrow>
          (case catch_up_step app of
             Inl (e, app') \<Rightarrow> if handler_calls app' = Suc (handler_calls app) then [task] else []
           | Inr (app', task_executed) \<Rightarrow>
               if task_executed then task # executed (pred_numeral k) app' else []))"
  by (simp add: numeral_eq_Suc)

lemma heapify_loop_numeral:
  "heapify_loop (numeral k) x =
     (case siftup x (pred_numeral k) of Inl r \<Rightarrow> Inl r | Inr x' \<Rightarrow> heapify_loop (pred_numeral k) x')"
  by (simp add: numeral_eq_Suc)

lemmas eval_defs = model_defs catch_up_numeral executed_numeral heapify_loop_numeral

lemma compute_next_execution_time_fields:
  "name (fst (compute_next_execution_time task c)) = name task"
  "interval (fst (compute_next_execution_time task c)) = interval task"
  "handler_method (fst (compute_next_execution_time task c)) = handler_method task"
  "fixed_schedule (fst (compute_next_execution_time task c)) = fixed_schedule task"
  "next_execution (fst (compute_next_execution_time task c)) \<noteq> None"
  "readings (snd (compute_next_execution_time task c)) = readings c"
  by (auto simp: compute_next_execution_time_def utcnow_def split: option.splits)

lemma adapt_to_delay_fields:
  "name (adapt_to_delay d task) = name task"
  "interval (adapt_to_delay d task) = interval task"
  "handler_method (adapt_to_delay d task) = handler_method task"
  "fixed_schedule (adapt_to_delay d task) = fixed_schedule task"
  "next_execution (adapt_to_delay d task) = map_option (\<lambda>t. t + d) (next_execution task)"
  by (auto simp: adapt_to_delay_def split: option.splits)

lemma adapt_to_delay_due:
  "next_execution task \<noteq> None \<Longrightarrow> due (adapt_to_delay d task) = due task + d"
  by (auto simp: adapt_to_delay_def due_def)

lemma scheduled_adapt: "scheduled heap \<Longrightarrow> scheduled (map (adapt_to_delay d) heap)"
  by (auto simp: scheduled_def list_all_iff adapt_to_delay_def split: option.splits)

lemma add_recurring_task_ok:
  assumes "queue_ok (recurring_tasks app)"
  shows "\<exists>heap. add_recurring_task task app
             = Inr (app\<lparr>recurring_tasks := heap, clock := snd (compute_next_execution_time task (clock app))\<rparr>)
           \<and> queue_ok heap
           \<and> mset heap = add_mset (fst (compute_next_execution_time task (clock app))) (mset (recurring_tasks app))"
proof -
  obtain task' c where tc: "compute_next_execution_time task (clock app) = (task', c)" by fastforce
  have "next_execution task' \<noteq> None"
    using compute_next_execution_time_fields(5) [of task "clock app"] tc by simp
  then obtain heap where "heappush (recurring_tasks app) task' = Inr heap" "heap_from 0 heap"
      "mset heap = add_mset task' (mset (recurring_tasks app))" "scheduled heap"
    using heappush_heap [of "recurring_tasks app" task'] assms unfolding queue_ok_def by blast
  then show ?thesis using tc by (auto simp: add_recurring_task_def queue_ok_def)
qed

lemma adapt_active_recurring_tasks_ok:
  assumes "scheduled (recurring_tasks app)"
  shows "\<exists>heap. adapt_active_recurring_tasks d app = Inr (app\<lparr>recurring_tasks := heap\<rparr>)
           \<and> queue_ok heap
           \<and> mset heap = image_mset (adapt_to_delay d) (mset (recurring_tasks app))"
proof -
  obtain heap where "heapify (map (adapt_to_delay d) (recurring_tasks app)) = Inr heap"
      "heap_from 0 heap" "mset heap = mset (map (adapt_to_delay d) (recurring_tasks app))" "scheduled heap"
    using heapify_heap [OF scheduled_adapt [OF assms, of d]] by blast
  then show ?thesis by (auto simp: adapt_active_recurring_tasks_def queue_ok_def)
qed

lemma track_downtime_ok:
  assumes "scheduled (recurring_tasks app)"
  shows "\<exists>heap. track_downtime d app
             = Inr (app\<lparr>recurring_tasks := heap, downtime := float_add (downtime app) (total_seconds d),
                        logged := logged app @ [Detected_delay d]\<rparr>)
           \<and> queue_ok heap
           \<and> mset heap = image_mset (adapt_to_delay d) (mset (recurring_tasks app))"
proof -
  let ?app = "(log_event (Detected_delay d) app)\<lparr>downtime := float_add (downtime app) (total_seconds d)\<rparr>"
  have "scheduled (recurring_tasks ?app)" using assms by (simp add: log_event_def)
  from adapt_active_recurring_tasks_ok [OF this, of d]
  obtain heap where h: "adapt_active_recurring_tasks d ?app = Inr (?app\<lparr>recurring_tasks := heap\<rparr>)"
      "queue_ok heap" "mset heap = image_mset (adapt_to_delay d) (mset (recurring_tasks ?app))"
    by blast
  show ?thesis
    by (rule exI [of _ heap]) (use h in \<open>simp add: track_downtime_def log_event_def\<close>)
qed

lemma queue_ok_head_least:
  assumes "queue_ok (T # rest)" "task \<in> set (T # rest)"
  shows "due T \<le> due task"
proof -
  obtain j where "j < length (T # rest)" "(T # rest) ! j = task"
    using assms(2) by (metis in_set_conv_nth)
  then show ?thesis using heap_root_least [of "T # rest" j] assms(1) by (auto simp: queue_ok_def)
qed


lemma queue_reachable_ok: "queue_reachable app \<Longrightarrow> queue_ok (recurring_tasks app)"
proof (induction rule: queue_reachable.induct)
  case (reach_empty app)
  then show ?case by (simp add: queue_ok_def scheduled_def heap_from_def)
next
  case (reach_register app task app')
  then show ?case using add_recurring_task_ok [of app task] by auto
next
  case (reach_reinsert app task heap app')
  have "recurring_tasks app \<noteq> []" using reach_reinsert.hyps(2) by (auto simp: heappop_def)
  then have "queue_ok heap"
    using heappop_heap [of "recurring_tasks app"] reach_reinsert.IH reach_reinsert.hyps(2)
    by (auto simp: queue_ok_def)
  then show ?case
    using add_recurring_task_ok [of "app\<lparr>recurring_tasks := heap\<rparr>" task] reach_reinsert.hyps(3) by auto
next
  case (reach_shift app p_delay app')
  then show ?case using adapt_active_recurring_tasks_ok [of app p_delay] by (auto simp: queue_ok_def)
next
  case (reach_elsewhere app app')
  then show ?case by simp
qed

section \<open>One round of the catch-up loop\<close>

lemma adapt_to_delay_zero: "adapt_to_delay 0 = id"
  by (rule ext) (simp add: adapt_to_delay_def split: option.splits)

lemma catch_up_step_not_due:
  assumes "recurring_tasks app = T # rest" "next_execution T = Some t"
    "\<not> t < readings (clock app) (reads (clock app))"
  shows "catch_up_step app = Inr (app\<lparr>clock := (clock app)\<lparr>reads := Suc (reads (clock app))\<rparr>\<rparr>, False)"
  using assms by (simp add: catch_up_step_def utcnow_def)

lemma catch_up_step_reinserts:
  assumes ok: "queue_ok (recurring_tasks app)" and q: "recurring_tasks app = T # rest"
    and ne: "next_execution T = Some t" and lt: "t < readings (clock app) (reads (clock app))"
  shows "\<exists>heap. queue_ok heap
           \<and> mset heap = add_mset (fst (compute_next_execution_time T ((clock app)\<lparr>reads := Suc (reads (clock app))\<rparr>)))
                           (mset rest)
           \<and> catch_up_step app =
               (let delay = readings (clock app) (reads (clock app)) - t;
                    app2 = app\<lparr>recurring_tasks := heap,
                             clock := snd (compute_next_execution_time T ((clock app)\<lparr>reads := Suc (reads (clock app))\<rparr>))\<rparr>;
                    app3 = (log_event (Executing_start (name T) delay) app2)\<lparr>handler_calls := Suc (handler_calls app2)\<rparr>
                in case handler_method T (handler_calls app2) of
                     Raises e \<Rightarrow> Inl (e, app3)
                   | Returns \<Rightarrow>
                       (let app4 = log_event (Executing_end (name T) delay) app3 in
                        if delay > minimum_downtime_duration (app_config app4) then
                          (case track_downtime delay app4 of
                             Inl r \<Rightarrow> Inl r
                           | Inr app5 \<Rightarrow> Inr (app5, True))
                        else Inr (app4, True)))"
proof -
  let ?c1 = "(clock app)\<lparr>reads := Suc (reads (clock app))\<rparr>"
  have okq: "heap_from 0 (T # rest)" "scheduled (T # rest)" using ok q by (simp_all add: queue_ok_def)
  obtain h1 where h1: "heappop (T # rest) = Inr ((T # rest) ! 0, h1)" "heap_from 0 h1"
      "add_mset ((T # rest) ! 0) (mset h1) = mset (T # rest)" "scheduled h1"
    using heappop_heap [OF okq] by blast
  then have m1: "mset h1 = mset rest" by simp
  let ?app1 = "app\<lparr>clock := ?c1, recurring_tasks := h1\<rparr>"
  have "queue_ok (recurring_tasks ?app1)" using h1 by (simp add: queue_ok_def)
  from add_recurring_task_ok [OF this, of T]
  obtain heap where heap: "add_recurring_task T ?app1
        = Inr (?app1\<lparr>recurring_tasks := heap, clock := snd (compute_next_execution_time T (clock ?app1))\<rparr>)"
      "queue_ok heap"
      "mset heap = add_mset (fst (compute_next_execution_time T (clock ?app1))) (mset (recurring_tasks ?app1))"
    by blast
  show ?thesis
    by (rule exI [of _ heap])
       (use heap h1 m1 q ne lt in \<open>simp add: catch_up_step_def utcnow_def Let_def split: outcome.splits\<close>)
qed

lemma catch_up_step_returns:
  assumes ok: "queue_ok (recurring_tasks app)" and q: "recurring_tasks app = T # rest"
    and ne: "next_execution T = Some t" and lt: "t < readings (clock app) (reads (clock app))"
    and ret: "handler_method T (handler_calls app) = Returns"
  shows "\<exists>heap. queue_ok heap
           \<and> mset heap =
               image_mset
                 (adapt_to_delay (if readings (clock app) (reads (clock app)) - t > minimum_downtime_duration (app_config app)
                                  then readings (clock app) (reads (clock app)) - t else 0))
                 (add_mset (fst (compute_next_execution_time T ((clock app)\<lparr>reads := Suc (reads (clock app))\<rparr>)))
                    (mset rest))
           \<and> catch_up_step app =
               Inr (app\<lparr>recurring_tasks := heap,
                         clock := snd (compute_next_execution_time T ((clock app)\<lparr>reads := Suc (reads (clock app))\<rparr>)),
                         handler_calls := Suc (handler_calls app),
                         logged := logged app
                           @ [Executing_start (name T) (readings (clock app) (reads (clock app)) - t),
                              Executing_end (name T) (readings (clock app) (reads (clock app)) - t)]
                           @ (if readings (clock app) (reads (clock app)) - t > minimum_downtime_duration (app_config app)
                              then [Detected_delay (readings (clock app) (reads (clock app)) - t)] else []),
                         downtime :=
                           (if readings (clock app) (reads (clock app)) - t > minimum_downtime_duration (app_config app)
                            then float_add (downtime app)
                                   (total_seconds (readings (clock app) (reads (clock app)) - t))
                            else downtime app)\<rparr>, True)"
proof -
  let ?delay = "readings (clock app) (reads (clock app)) - t"
  let ?c1 = "(clock app)\<lparr>reads := Suc (reads (clock app))\<rparr>"
  obtain h2 where h2: "queue_ok h2"
      "mset h2 = add_mset (fst (compute_next_execution_time T ?c1)) (mset rest)"
      "catch_up_step app =
               (let delay = ?delay;
                    app2 = app\<lparr>recurring_tasks := h2, clock := snd (compute_next_execution_time T ?c1)\<rparr>;
                    app3 = (log_event (Executing_start (name T) delay) app2)\<lparr>handler_calls := Suc (handler_calls app2)\<rparr>
                in case handler_method T (handler_calls app2) of
                     Raises e \<Rightarrow> Inl (e, app3)
                   | Returns \<Rightarrow>
                       (let app4 = log_event (Executing_end (name T) delay) app3 in
                        if delay > minimum_downtime_duration (app_config app4) then
                          (case track_downtime delay app4 of
                             Inl r \<Rightarrow> Inl r
                           | Inr app5 \<Rightarrow> Inr (app5, True))
                        else Inr (app4, True)))"
    using catch_up_step_reinserts [OF ok q ne lt] by blast
  show ?thesis
  proof (cases "?delay > minimum_downtime_duration (app_config app)")
    case False
    show ?thesis
      by (rule exI [of _ h2])
         (use h2 False ret in \<open>simp add: Let_def log_event_def adapt_to_delay_zero\<close>)
  next
    case True
    let ?app4 = "app\<lparr>recurring_tasks := h2, clock := snd (compute_next_execution_time T ?c1),
                      handler_calls := Suc (handler_calls app),
                      logged := logged app @ [Executing_start (name T) ?delay, Executing_end (name T) ?delay]\<rparr>"
    have "scheduled (recurring_tasks ?app4)" using h2(1) by (simp add: queue_ok_def)
    from track_downtime_ok [OF this, of ?delay]
    obtain heap where heap: "track_downtime ?delay ?app4
             = Inr (?app4\<lparr>recurring_tasks := heap, downtime := float_add (downtime ?app4) (total_seconds ?delay),
                        logged := logged ?app4 @ [Detected_delay ?delay]\<rparr>)"
        "queue_ok heap" "mset heap = image_mset (adapt_to_delay ?delay) (mset (recurring_tasks ?app4))"
      by blast
    show ?thesis
      by (rule exI [of _ heap])
         (use h2 heap True ret in \<open>simp add: Let_def log_event_def\<close>)
  qed
qed

lemma catch_up_step_raises:
  assumes ok: "queue_ok (recurring_tasks app)" and q: "recurring_tasks app = T # rest"
    and ne: "next_execution T = Some t" and lt: "t < readings (clock app) (reads (clock app))"
    and ret: "handler_method T (handler_calls app) = Raises e"
  shows "\<exists>heap. queue_ok heap
           \<and> mset heap = add_mset (fst (compute_next_execution_time T ((clock app)\<lparr>reads := Suc (reads (clock app))\<rparr>)))
                           (mset rest)
           \<and> catch_up_step app =
               Inl (e, app\<lparr>recurring_tasks := heap,
                         clock := snd (compute_next_execution_time T ((clock app)\<lparr>reads := Suc (reads (clock app))\<rparr>)),
                         handler_calls := Suc (handler_calls app),
                         logged := logged app
                           @ [Executing_start (name T) (readings (clock app) (reads (clock app)) - t)]\<rparr>)"
proof -
  obtain h2 where h2: "queue_ok h2"
      "mset h2 = add_mset (fst (compute_next_execution_time T ((clock app)\<lparr>reads := Suc (reads (clock app))\<rparr>))) (mset rest)"
      "catch_up_step app =
               (let delay = readings (clock app) (reads (clock app)) - t;
                    app2 = app\<lparr>recurring_tasks := h2,
                             clock := snd (compute_next_execution_time T ((clock app)\<lparr>reads := Suc (reads (clock app))\<rparr>))\<rparr>;
                    app3 = (log_event (Executing_start (name T) delay) app2)\<lparr>handler_calls := Suc (handler_calls app2)\<rparr>
                in case handler_method T (handler_calls app2) of
                     Raises e \<Rightarrow> Inl (e, app3)
                   | Returns \<Rightarrow>
                       (let app4 = log_event (Executing_end (name T) delay) app3 in
                        if delay > minimum_downtime_duration (app_config app4) then
                          (case track_downtime delay app4 of
                             Inl r \<Rightarrow> Inl r
                           | Inr app5 \<Rightarrow> Inr (app5, True))
                        else Inr (app4, True)))"
    using catch_up_step_reinserts [OF ok q ne lt] by blast
  show ?thesis
    by (rule exI [of _ h2]) (use h2 ret in \<open>simp add: Let_def log_event_def\<close>)
qed


lemma keeps_tasks_trans: "keeps_tasks a b \<Longrightarrow> keeps_tasks b c \<Longrightarrow> keeps_tasks a c"
  by (simp add: keeps_tasks_def)

lemma as_created_adapt: "as_created (adapt_to_delay d task) = as_created task"
  by (simp add: as_created_def adapt_to_delay_def split: option.splits)

lemma as_created_adapt_to_delay: "as_created \<circ> adapt_to_delay d = as_created"
  by (rule ext) (simp add: as_created_adapt)

lemma as_created_compute_next_execution_time:
  "as_created (fst (compute_next_execution_time task c)) = as_created task"
  by (simp add: as_created_def compute_next_execution_time_def utcnow_def split: option.splits)

lemma catch_up_step_keeps_tasks:
  assumes ok: "queue_ok (recurring_tasks app)"
  shows "(\<forall>e app'. catch_up_step app = Inl (e, app') \<longrightarrow> recurring_tasks app \<noteq> []
             \<longrightarrow> keeps_tasks app app')
       \<and> (\<forall>app' b. catch_up_step app = Inr (app', b) \<longrightarrow> keeps_tasks app app' \<and> recurring_tasks app' \<noteq> [])"
proof (cases "recurring_tasks app")
  case Nil
  then show ?thesis by (simp add: catch_up_step_def)
next
  case (Cons T rest)
  then obtain t where ne: "next_execution T = Some t"
    using ok by (auto simp: queue_ok_def scheduled_def)
  let ?now = "readings (clock app) (reads (clock app))"
  show ?thesis
  proof (cases "t < ?now")
    case False
    show ?thesis
      using catch_up_step_not_due [OF Cons ne False] ok Cons
      by (simp add: keeps_tasks_def hook_calls_def)
  next
    case True
    show ?thesis
    proof (cases "handler_method T (handler_calls app)")
      case Returns
      from catch_up_step_returns [OF ok Cons ne True Returns]
      show ?thesis using Cons
        by (auto simp: keeps_tasks_def hook_calls_def compute_next_execution_time_fields
              as_created_adapt as_created_compute_next_execution_time
              image_mset.compositionality as_created_adapt_to_delay)
    next
      case (Raises e)
      from catch_up_step_raises [OF ok Cons ne True Raises]
      show ?thesis using Cons
        by (auto simp: keeps_tasks_def hook_calls_def compute_next_execution_time_fields
              as_created_compute_next_execution_time)
    qed
  qed
qed

lemma catch_up_keeps_tasks:
  assumes "queue_ok (recurring_tasks app)" "recurring_tasks app \<noteq> []"
  shows "(\<forall>e app'. catch_up fuel app = Some (Inl (e, app')) \<longrightarrow> keeps_tasks app app')
       \<and> (\<forall>app'. catch_up fuel app = Some (Inr app') \<longrightarrow> keeps_tasks app app')"
  using assms
proof (induction fuel arbitrary: app)
  case 0
  then show ?case by simp
next
  case (Suc fuel)
  note step = catch_up_step_keeps_tasks [OF Suc.prems(1)]
  show ?case
  proof (cases "catch_up_step app")
    case (Inl r)
    then show ?thesis using step Suc.prems(2) by (cases r) auto
  next
    case (Inr r)
    obtain app1 b where r: "r = (app1, b)" by (cases r)
    have k: "keeps_tasks app app1" "recurring_tasks app1 \<noteq> []" using step Inr r by auto
    show ?thesis
    proof (cases b)
      case False
      then show ?thesis using Inr r k by simp
    next
      case True
      have "queue_ok (recurring_tasks app1)" using k(1) by (simp add: keeps_tasks_def)
      from Suc.IH [OF this k(2)] show ?thesis
        using Inr r True k(1) by (auto intro: keeps_tasks_trans)
    qed
  qed
qed



lemma executed_first_round:
  assumes ok: "queue_ok (recurring_tasks app)" and q: "recurring_tasks app = T # rest"
    and ne: "next_execution T = Some t"
  shows "if t < readings (clock app) (reads (clock app))
         then \<exists>later. executed (Suc n) app = T # later
         else executed (Suc n) app = []"
proof (cases "t < readings (clock app) (reads (clock app))")
  case False
  then show ?thesis using catch_up_step_not_due [OF q ne False] q by simp
next
  case True
  show ?thesis
  proof (cases "handler_method T (handler_calls app)")
    case Returns
    from catch_up_step_returns [OF ok q ne True Returns] show ?thesis using q True by auto
  next
    case (Raises e)
    from catch_up_step_raises [OF ok q ne True Raises] show ?thesis using q True by auto
  qed
qed

lemma executed_sorted_from:
  assumes "queue_ok (recurring_tasks app)"
    "\<forall>task \<in> set (recurring_tasks app). L \<le> due task \<and> 0 \<le> interval task"
    "\<forall>i j. i \<le> j \<longrightarrow> readings (clock app) i \<le> readings (clock app) j"
  shows "sorted (map due (executed fuel app)) \<and> (\<forall>x \<in> set (executed fuel app). L \<le> due x)"
  using assms
proof (induction fuel arbitrary: app L)
  case 0
  then show ?case by simp
next
  case (Suc fuel)
  show ?case
  proof (cases "recurring_tasks app")
    case Nil
    then show ?thesis by simp
  next
    case (Cons T rest)
    then obtain t where ne: "next_execution T = Some t"
      using Suc.prems(1) by (auto simp: queue_ok_def scheduled_def)
    have dT: "due T = t" using ne by (simp add: due_def)
    have LT: "L \<le> due T" using Suc.prems(2) Cons by simp
    let ?now = "readings (clock app) (reads (clock app))"
    let ?c1 = "(clock app)\<lparr>reads := Suc (reads (clock app))\<rparr>"
    let ?T' = "fst (compute_next_execution_time T ?c1)"
    show ?thesis
    proof (cases "t < ?now")
      case False
      then show ?thesis using catch_up_step_not_due [OF Cons ne False] Cons by simp
    next
      case True
      show ?thesis
      proof (cases "handler_method T (handler_calls app)")
        case (Raises e)
        from catch_up_step_raises [OF Suc.prems(1) Cons ne True Raises] show ?thesis
          using Cons LT by auto
      next
        case Returns
        let ?shift = "if ?now - t > minimum_downtime_duration (app_config app) then ?now - t else 0"
        from catch_up_step_returns [OF Suc.prems(1) Cons ne True Returns]
        obtain heap app1 where h: "queue_ok heap"
            "mset heap = image_mset (adapt_to_delay ?shift) (add_mset ?T' (mset rest))"
            "catch_up_step app = Inr (app1, True)" "recurring_tasks app1 = heap"
            "readings (clock app1) = readings (clock app)"
          by (auto simp: compute_next_execution_time_fields)
        have shift: "0 \<le> ?shift" using True by simp
        have now2: "?now \<le> readings (clock app) (Suc (reads (clock app)))"
          using Suc.prems(3) by simp
        have T': "t \<le> due ?T'" "0 \<le> interval ?T'" "next_execution ?T' \<noteq> None"
          using ne True now2 Suc.prems(2) Cons
          by (auto simp: compute_next_execution_time_def utcnow_def due_def)
        have old: "\<And>x. x \<in> set rest \<Longrightarrow> t \<le> due x \<and> 0 \<le> interval x \<and> next_execution x \<noteq> None"
        proof -
          fix x assume x: "x \<in> set rest"
          then have "due T \<le> due x" using queue_ok_head_least [of T rest x] Suc.prems(1) Cons by simp
          moreover have "next_execution x \<noteq> None"
            using Suc.prems(1) Cons x by (auto simp: queue_ok_def scheduled_def list_all_iff)
          ultimately show "t \<le> due x \<and> 0 \<le> interval x \<and> next_execution x \<noteq> None"
            using dT Suc.prems(2) Cons x by simp
        qed
        have new: "\<forall>task \<in> set (recurring_tasks app1). t \<le> due task \<and> 0 \<le> interval task"
        proof
          fix task assume "task \<in> set (recurring_tasks app1)"
          then have "task \<in># image_mset (adapt_to_delay ?shift) (add_mset ?T' (mset rest))"
            using h(2,4) by (metis set_mset_mset)
          then obtain x where x: "task = adapt_to_delay ?shift x" "x = ?T' \<or> x \<in> set rest" by auto
          then have "t \<le> due x \<and> 0 \<le> interval x \<and> next_execution x \<noteq> None"
            using T' old by blast
          then show "t \<le> due task \<and> 0 \<le> interval task"
            using x(1) shift by (simp add: adapt_to_delay_due adapt_to_delay_fields del: if_split)
        qed
        have mono1: "\<forall>i j. i \<le> j \<longrightarrow> readings (clock app1) i \<le> readings (clock app1) j"
          using Suc.prems(3) h(5) by simp
        have ok1: "queue_ok (recurring_tasks app1)" using h by simp
        from Suc.IH [OF ok1 new mono1]
        have "sorted (map due (executed fuel app1))" "\<forall>x \<in> set (executed fuel app1). t \<le> due x"
          by simp_all
        then show ?thesis using h(3) Cons LT dT by auto
      qed
    qed
  qed
qed

lemma queue_ok_eval:
  "queue_ok [] = True"
  "queue_ok [a] = (next_execution a \<noteq> None)"
  "queue_ok [a, b] = (scheduled [a, b] \<and> due a \<le> due b)"
  "queue_ok [a, b, c] = (scheduled [a, b, c] \<and> due a \<le> due b \<and> due a \<le> due c)"
  "queue_ok [a, b, c, d] = (scheduled [a, b, c, d] \<and> due a \<le> due b \<and> due a \<le> due c \<and> due b \<le> due d)"
  by (auto simp: queue_ok_def scheduled_def heap_from_def less_Suc_eq)

section \<open>The wait and one turn of the event queue\<close>

lemma interruptible_sleep_cases:
  "interruptible_sleep w app =
     (case sleep_outcomes app (sleeps app) of
        Returns \<Rightarrow> Inr (app\<lparr>sleeps := Suc (sleeps app), logged := logged app @ [Sleeping w, Woken]\<rparr>)
      | Raises e \<Rightarrow>
          if e = SignalHangUp
          then Inl (e, app\<lparr>sleeps := Suc (sleeps app), logged := logged app @ [Sleeping w]\<rparr>)
          else if debug_mode (app_config app)
          then Inl (e, app\<lparr>sleeps := Suc (sleeps app), logged := logged app @ [Sleeping w, Propagating]\<rparr>)
          else Inr (app\<lparr>sleeps := Suc (sleeps app),
                         logged := logged app @ [Sleeping w, Wait_exception, Woken]\<rparr>))"
  by (simp add: interruptible_sleep_def log_event_def Let_def split: outcome.splits)

lemma interruptible_sleep_keeps:
  assumes "queue_ok (recurring_tasks app)"
  shows "(\<forall>app'. interruptible_sleep w app = Inr app' \<longrightarrow>
            keeps_tasks app app' \<and> recurring_tasks app' = recurring_tasks app
            \<and> downtime app' = downtime app \<and> clock app' = clock app)
       \<and> (\<forall>e app'. interruptible_sleep w app = Inl (e, app') \<longrightarrow>
            keeps_tasks app app' \<and> (e = SignalHangUp \<or> debug_mode (app_config app)))"
proof (cases "sleep_outcomes app (sleeps app)")
  case Returns
  then show ?thesis using assms
    by (simp add: interruptible_sleep_cases keeps_tasks_def hook_calls_def)
next
  case (Raises e)
  show ?thesis
  proof (cases "e = SignalHangUp")
    case True
    then show ?thesis using assms Raises
      by (simp add: interruptible_sleep_cases keeps_tasks_def hook_calls_def)
  next
    case False
    then show ?thesis using assms Raises
      by (cases "debug_mode (app_config app)")
         (simp_all add: interruptible_sleep_cases keeps_tasks_def hook_calls_def)
  qed
qed

lemma sleep_until_due_keeps:
  assumes ok: "queue_ok (recurring_tasks app)"
  shows "(\<forall>app'. sleep_until_due app = Inr app' \<longrightarrow> keeps_tasks app app')
       \<and> (\<forall>e app'. sleep_until_due app = Inl (e, app') \<longrightarrow>
            keeps_tasks app app' \<and> (e = SignalHangUp \<or> debug_mode (app_config app)))"
proof -
  let ?now = "readings (clock app) (reads (clock app))"
  let ?app1 = "app\<lparr>clock := (clock app)\<lparr>reads := Suc (reads (clock app))\<rparr>\<rparr>"
  have k: "keeps_tasks app ?app1" using ok by (simp add: keeps_tasks_def hook_calls_def)
  have ok1: "queue_ok (recurring_tasks ?app1)" using ok by simp
  have cfg: "debug_mode (app_config ?app1) = debug_mode (app_config app)" by simp
  have sl: "\<And>w app'. interruptible_sleep w ?app1 = Inr app' \<Longrightarrow> keeps_tasks app app'"
    "\<And>w e app'. interruptible_sleep w ?app1 = Inl (e, app') \<Longrightarrow>
        keeps_tasks app app' \<and> (e = SignalHangUp \<or> debug_mode (app_config app))"
    using interruptible_sleep_keeps [OF ok1] keeps_tasks_trans [OF k] cfg by blast+
  show ?thesis
  proof (cases "recurring_tasks app")
    case Nil
    have "sleep_until_due app = interruptible_sleep ETERNITY ?app1"
      using Nil by (simp add: sleep_until_due_def utcnow_def)
    then show ?thesis using sl by simp
  next
    case (Cons T rest)
    then obtain t where ne: "next_execution T = Some t"
      using ok by (auto simp: queue_ok_def scheduled_def)
    show ?thesis
    proof (cases "t - ?now > 0")
      case False
      then have "sleep_until_due app = Inr ?app1"
        using Cons ne by (simp add: sleep_until_due_def utcnow_def)
      then show ?thesis using k by simp
    next
      case True
      show ?thesis
      proof (cases "interruptible_sleep (t - ?now) ?app1")
        case (Inl r)
        obtain e a where r: "r = (e, a)" by (cases r)
        have "sleep_until_due app = Inl (e, a)"
          using Cons ne True Inl r by (simp add: sleep_until_due_def utcnow_def)
        then show ?thesis using sl(2) [of "t - ?now" e a] Inl r by simp
      next
        case (Inr app2)
        have k2: "keeps_tasks app app2" using sl(1) Inr by blast
        let ?app3 = "app2\<lparr>clock := (clock app2)\<lparr>reads := Suc (reads (clock app2))\<rparr>\<rparr>"
        let ?over = "readings (clock app2) (reads (clock app2)) - t"
        have k3: "keeps_tasks app ?app3" using k2 by (simp add: keeps_tasks_def hook_calls_def)
        have s: "sleep_until_due app =
            (if ?over > maximum_timer_slack (app_config ?app3) then track_downtime ?over ?app3 else Inr ?app3)"
          using Cons ne True Inr by (simp add: sleep_until_due_def utcnow_def Let_def)
        show ?thesis
        proof (cases "?over > maximum_timer_slack (app_config ?app3)")
          case False
          then have "sleep_until_due app = Inr ?app3" using s by simp
          then show ?thesis using k3 by simp
        next
          case over: True
          have "scheduled (recurring_tasks ?app3)" using k3 by (simp add: keeps_tasks_def queue_ok_def)
          from track_downtime_ok [OF this, of ?over]
          obtain heap where h: "track_downtime ?over ?app3
               = Inr (?app3\<lparr>recurring_tasks := heap, downtime := float_add (downtime ?app3) (total_seconds ?over),
                          logged := logged ?app3 @ [Detected_delay ?over]\<rparr>)"
            "queue_ok heap" "mset heap = image_mset (adapt_to_delay ?over) (mset (recurring_tasks ?app3))"
            by blast
          let ?app4 = "?app3\<lparr>recurring_tasks := heap, downtime := float_add (downtime ?app3) (total_seconds ?over),
                          logged := logged ?app3 @ [Detected_delay ?over]\<rparr>"
          have "keeps_tasks ?app3 ?app4"
            using h(2,3) by (simp add: keeps_tasks_def hook_calls_def image_mset.compositionality
                  as_created_adapt_to_delay)
          then have k4: "keeps_tasks app ?app4" using keeps_tasks_trans [OF k3] by blast
          have "sleep_until_due app = Inr ?app4" using s over h(1) by simp
          then show ?thesis using k4 by simp
        qed
      qed
    qed
  qed
qed

lemma event_queue_body_keeps:
  assumes ok: "queue_ok (recurring_tasks app)"
  shows "(\<forall>e app'. event_queue_body fuel app = Some (Inl (e, app')) \<longrightarrow> keeps_tasks app app')
       \<and> (\<forall>app'. event_queue_body fuel app = Some (Inr app') \<longrightarrow>
            (\<exists>app2. keeps_tasks app app2
               \<and> app' = (if recurring_tasks app \<noteq> [] then report_downtime app2 else app2)))"
proof (cases "sleep_until_due app")
  case (Inl r)
  obtain e a where r: "r = (e, a)" by (cases r)
  have "event_queue_body fuel app = Some (Inl (e, a))" using Inl r by (simp add: event_queue_body_def)
  moreover have "keeps_tasks app a" using sleep_until_due_keeps [OF ok] Inl r by simp
  ultimately show ?thesis by simp
next
  case (Inr app1)
  have k1: "keeps_tasks app app1" using sleep_until_due_keeps [OF ok] Inr by simp
  then have ok1: "queue_ok (recurring_tasks app1)" by (simp add: keeps_tasks_def)
  have "image_mset as_created (mset (recurring_tasks app1)) = image_mset as_created (mset (recurring_tasks app))"
    using k1 by (simp add: keeps_tasks_def)
  then have same: "recurring_tasks app1 = [] \<longleftrightarrow> recurring_tasks app = []"
    by (metis image_mset_is_empty_iff mset_zero_iff)
  show ?thesis
  proof (cases "recurring_tasks app1 = []")
    case True
    then have "event_queue_body fuel app = Some (Inr app1)" using Inr by (simp add: event_queue_body_def)
    then show ?thesis using k1 same True by auto
  next
    case False
    note cu = catch_up_keeps_tasks [OF ok1 False, of fuel]
    show ?thesis
    proof (cases "catch_up fuel app1")
      case None
      then show ?thesis using Inr False by (simp add: event_queue_body_def)
    next
      case (Some r)
      show ?thesis
      proof (cases r)
        case (Inl x)
        obtain e a where x: "x = (e, a)" by (cases x)
        have "keeps_tasks app1 a" using cu Some Inl x by simp
        then have "keeps_tasks app a" using keeps_tasks_trans [OF k1] by blast
        moreover have "event_queue_body fuel app = Some (Inl (e, a))"
          using Inr False Some Inl x by (simp add: event_queue_body_def)
        ultimately show ?thesis by simp
      next
        case r: (Inr app2)
        have "keeps_tasks app1 app2" using cu Some r by simp
        then have "keeps_tasks app app2" using keeps_tasks_trans [OF k1] by blast
        moreover have "event_queue_body fuel app = Some (Inr (report_downtime app2))"
          using Inr False Some r by (simp add: event_queue_body_def)
        ultimately show ?thesis using same False by auto
      qed
    qed
  qed
qed

lemma catch_up_step_downtime:
  assumes ok: "queue_ok (recurring_tasks app)" and q: "recurring_tasks app = T # rest"
    and ne: "next_execution T = Some t"
  shows "(\<forall>app' b. catch_up_step app = Inr (app', b) \<longrightarrow>
            downtime app' =
              (if b \<and> readings (clock app) (reads (clock app)) - t > minimum_downtime_duration (app_config app)
               then float_add (downtime app) (total_seconds (readings (clock app) (reads (clock app)) - t))
               else downtime app))
       \<and> (\<forall>e app'. catch_up_step app = Inl (e, app') \<longrightarrow> downtime app' = downtime app)"
proof (cases "t < readings (clock app) (reads (clock app))")
  case False
  then show ?thesis using catch_up_step_not_due [OF q ne False] by simp
next
  case True
  show ?thesis
  proof (cases "handler_method T (handler_calls app)")
    case Returns
    from catch_up_step_returns [OF ok q ne True Returns] show ?thesis by auto
  next
    case (Raises e)
    from catch_up_step_raises [OF ok q ne True Raises] show ?thesis by auto
  qed
qed

lemmas cycle_defs = event_queue_body_def sleep_until_due_def interruptible_sleep_def
  report_downtime_def reset_down_time_def handle_downtime_def event_queue_cycle_def ETERNITY_def

lemmas config_defs = set_config_value_def get_option_type_def has_option_def setattr_def
  new_base_app_section_def new_config_model_def NONE_TYPE_PREFIX_def NONE_STRING_def
  VALID_BOOLEAN_TRUE_VALUES_def VALID_BOOLEAN_FALSE_VALUES_def upper_def upper_char_def
  decimal_int_def digit_of_def marker_ok_def

section \<open>Schedule computation\<close>

text \<open>
  Claim C4. \<open>compute_next_execution_time\<close> behaves by cases: with \<open>next_execution\<close>
  unset it becomes the current time; otherwise, on a fixed schedule, it becomes the
  previous value plus the interval, whatever the clock says (the clock is not even read);
  otherwise it becomes the current time plus the interval. Nothing else of the task changes.
\<close>

theorem compute_next_execution_time_cases:
  "fst (compute_next_execution_time task c) =
     task\<lparr>next_execution :=
       Some (case next_execution task of
               None \<Rightarrow> readings c (reads c)
             | Some t \<Rightarrow> if fixed_schedule task then t + interval task
                         else readings c (reads c) + interval task)\<rparr>
   \<and> (next_execution task \<noteq> None \<and> fixed_schedule task \<longrightarrow>
        (\<forall>c'. next_execution (fst (compute_next_execution_time task c')) =
              next_execution (fst (compute_next_execution_time task c)))
        \<and> snd (compute_next_execution_time task c) = c)"
  by (auto simp: compute_next_execution_time_def utcnow_def split: option.splits)

theorem compute_next_execution_time_cases_witness:
  "fst (compute_next_execution_time
          \<lparr>name = ''ping'', handler_method = (\<lambda>_. Returns), interval = 10000000,
           next_execution = Some 5, fixed_schedule = True\<rparr>
          \<lparr>readings = (\<lambda>k. 77 + int k), reads = 0\<rparr>)
   = \<lparr>name = ''ping'', handler_method = (\<lambda>_. Returns), interval = 10000000,
      next_execution = Some 10000005, fixed_schedule = True\<rparr>
   \<and> snd (compute_next_execution_time
          \<lparr>name = ''ping'', handler_method = (\<lambda>_. Returns), interval = 10000000,
           next_execution = Some 5, fixed_schedule = True\<rparr>
          \<lparr>readings = (\<lambda>k. 77 + int k), reads = 0\<rparr>)
   = \<lparr>readings = (\<lambda>k. 77 + int k), reads = 0\<rparr>"
  using compute_next_execution_time_cases
    [of "\<lparr>name = ''ping'', handler_method = (\<lambda>_. Returns), interval = 10000000,
           next_execution = Some 5, fixed_schedule = True\<rparr>"
        "\<lparr>readings = (\<lambda>k. 77 + int k), reads = 0\<rparr>"]
  by simp

section \<open>Shifting the queue and peeking at it\<close>

text \<open>
  Claim C2. \<open>adapt_active_recurring_tasks\<close> with a delay \<open>D\<close> does not raise on a queue
  whose tasks all have their \<open>next_execution\<close> set; the queue it leaves holds exactly the
  old tasks, each moved by \<open>adapt_to_delay\<close>, which sets \<open>next_execution\<close> to the old
  value plus \<open>D\<close>; so two queued tasks of which the first was due strictly earlier are
  still so afterwards.
\<close>

theorem adapt_active_recurring_tasks_shifts:
  assumes "scheduled (recurring_tasks app)"
  shows "\<exists>heap. adapt_active_recurring_tasks D app = Inr (app\<lparr>recurring_tasks := heap\<rparr>)
           \<and> mset heap = image_mset (adapt_to_delay D) (mset (recurring_tasks app))
           \<and> (\<forall>A \<in> set (recurring_tasks app). \<exists>t. next_execution A = Some t
                  \<and> adapt_to_delay D A = A\<lparr>next_execution := Some (t + D)\<rparr>)
           \<and> (\<forall>A \<in> set (recurring_tasks app). \<forall>B \<in> set (recurring_tasks app).
                  due A < due B \<longrightarrow> due (adapt_to_delay D A) < due (adapt_to_delay D B))"
proof -
  have set: "\<And>A. A \<in> set (recurring_tasks app) \<Longrightarrow> next_execution A \<noteq> None"
    using assms by (simp add: scheduled_def list_all_iff)
  have "\<forall>A \<in> set (recurring_tasks app). \<exists>t. next_execution A = Some t
          \<and> adapt_to_delay D A = A\<lparr>next_execution := Some (t + D)\<rparr>"
  proof
    fix A assume "A \<in> set (recurring_tasks app)"
    then obtain t where "next_execution A = Some t" using set by blast
    then show "\<exists>t. next_execution A = Some t \<and> adapt_to_delay D A = A\<lparr>next_execution := Some (t + D)\<rparr>"
      by (simp add: adapt_to_delay_def)
  qed
  moreover have "\<forall>A \<in> set (recurring_tasks app). \<forall>B \<in> set (recurring_tasks app).
      due A < due B \<longrightarrow> due (adapt_to_delay D A) < due (adapt_to_delay D B)"
    using set by (simp add: adapt_to_delay_due)
  ultimately show ?thesis using adapt_active_recurring_tasks_ok [OF assms, of D] by blast
qed

theorem adapt_active_recurring_tasks_shifts_witness:
  "scheduled (recurring_tasks (scenario_app [scenario_task ''a'' 10, scenario_task ''b'' 20] 0))
   \<and> adapt_active_recurring_tasks 7 (scenario_app [scenario_task ''a'' 10, scenario_task ''b'' 20] 0)
       = Inr (scenario_app [scenario_task ''a'' 17, scenario_task ''b'' 27] 0)
   \<and> due (scenario_task ''a'' 10) < due (scenario_task ''b'' 20)
   \<and> due (adapt_to_delay 7 (scenario_task ''a'' 10)) < due (adapt_to_delay 7 (scenario_task ''b'' 20))"
  using adapt_active_recurring_tasks_shifts
    [of "scenario_app [scenario_task ''a'' 10, scenario_task ''b'' 20] 0" 7]
  by (simp add: eval_defs scheduled_def due_def)

lemma queue_reachable_never_raises:
  assumes "queue_reachable app"
  shows "(\<exists>app'. add_recurring_task task app = Inr app')
       \<and> (\<exists>app'. adapt_active_recurring_tasks p_delay app = Inr app')
       \<and> (recurring_tasks app \<noteq> [] \<longrightarrow>
            (\<exists>heap. heappop (recurring_tasks app) = Inr (recurring_tasks app ! 0, heap)))"
proof -
  have ok: "queue_ok (recurring_tasks app)" using queue_reachable_ok [OF assms] .
  then have "heap_from 0 (recurring_tasks app)" "scheduled (recurring_tasks app)"
    by (simp_all add: queue_ok_def)
  then show ?thesis
    using add_recurring_task_ok [OF ok, of task] adapt_active_recurring_tasks_ok [of app p_delay]
      heappop_heap [of "recurring_tasks app"]
    by blast
qed

text \<open>
  Claim C3. In every state reached from an empty queue by registrations (each of a task
  object of its own), by popping the earliest task and adding it again, and by shifts, the
  task at index 0 of the queue, the one a peek returns, is due no later than any queued
  task.
\<close>

theorem peek_returns_earliest:
  assumes "queue_reachable app" and "recurring_tasks app = task0 # rest"
    and "task \<in> set (recurring_tasks app)"
  shows "\<exists>t0 t. next_execution task0 = Some t0 \<and> next_execution task = Some t \<and> t0 \<le> t"
proof -
  have ok: "queue_ok (task0 # rest)" using queue_reachable_ok [OF assms(1)] assms(2) by simp
  then have "next_execution task0 \<noteq> None" "next_execution task \<noteq> None"
    using assms(2,3) by (auto simp: queue_ok_def scheduled_def list_all_iff)
  moreover have "due task0 \<le> due task" using queue_ok_head_least [OF ok] assms(2,3) by simp
  ultimately show ?thesis by (auto simp: due_def)
qed


theorem peek_returns_earliest_witness:
  "queue_reachable
     ((scenario_app [scenario_task ''a'' 50, scenario_task ''b'' 51] 50)
        \<lparr>clock := \<lparr>readings = (\<lambda>k. 50 + int k), reads = 2\<rparr>\<rparr>)
   \<and> scenario_task ''b'' 51 \<in> set [scenario_task ''a'' 50, scenario_task ''b'' 51]
   \<and> (\<exists>t0 t. next_execution (scenario_task ''a'' 50) = Some t0
          \<and> next_execution (scenario_task ''b'' 51) = Some t \<and> t0 \<le> t)"
proof -
  let ?a = "new_recurring_task ''a'' (\<lambda>_. Returns) DEFAULT_TASK_INTERVAL False"
  let ?b = "new_recurring_task ''b'' (\<lambda>_. Returns) DEFAULT_TASK_INTERVAL False"
  let ?W0 = "scenario_app [] 50"
  let ?W1 = "(scenario_app [scenario_task ''a'' 50] 50)\<lparr>clock := \<lparr>readings = (\<lambda>k. 50 + int k), reads = 1\<rparr>\<rparr>"
  let ?W2 = "(scenario_app [scenario_task ''a'' 50, scenario_task ''b'' 51] 50)
               \<lparr>clock := \<lparr>readings = (\<lambda>k. 50 + int k), reads = 2\<rparr>\<rparr>"
  have r0: "queue_reachable ?W0" by (rule reach_empty) (simp add: eval_defs)
  have s1: "add_recurring_task ?a ?W0 = Inr ?W1" by (simp add: eval_defs)
  have s2: "add_recurring_task ?b ?W1 = Inr ?W2" by (simp add: eval_defs)
  have r2: "queue_reachable ?W2" using reach_register [OF reach_register [OF r0 s1] s2] .
  have q: "recurring_tasks ?W2 = scenario_task ''a'' 50 # [scenario_task ''b'' 51]"
    by (simp add: eval_defs)
  have m: "scenario_task ''b'' 51 \<in> set (recurring_tasks ?W2)" by (simp add: eval_defs)
  show ?thesis using r2 peek_returns_earliest [OF r2 q m] by simp
qed

section \<open>The catch-up phase\<close>






text \<open>
  Claim C7, as stated, fails on the code: the heap does not keep tasks that are due at the
  same time in the order of their registration. Four tasks are registered in the order
  a, b, c, d, with b and c due at the same time; the catch-up loop executes c before b.
\<close>

theorem tie_order_counterexample:
  "register_all
     [new_recurring_task ''a'' (\<lambda>_. Returns) DEFAULT_TASK_INTERVAL False,
      new_recurring_task ''b'' (\<lambda>_. Returns) DEFAULT_TASK_INTERVAL False,
      new_recurring_task ''c'' (\<lambda>_. Returns) DEFAULT_TASK_INTERVAL False,
      new_recurring_task ''d'' (\<lambda>_. Returns) DEFAULT_TASK_INTERVAL False]
     (new_base_app False tie_clock (\<lambda>_. Returns))
   = Inr ((new_base_app False tie_clock (\<lambda>_. Returns))
            \<lparr>recurring_tasks := [scenario_task ''a'' 1, scenario_task ''b'' 2,
                                 scenario_task ''c'' 2, scenario_task ''d'' 3],
             clock := \<lparr>readings = tie_clock, reads = 4\<rparr>\<rparr>)
   \<and> map name (executed 5
        ((new_base_app False tie_clock (\<lambda>_. Returns))
            \<lparr>recurring_tasks := [scenario_task ''a'' 1, scenario_task ''b'' 2,
                                 scenario_task ''c'' 2, scenario_task ''d'' 3],
             clock := \<lparr>readings = tie_clock, reads = 4\<rparr>\<rparr>))
     = [''a'', ''c'', ''b'', ''d'']"
  by (simp add: eval_defs tie_clock_def)

text \<open>
  Claim C7, amended. With intervals that are not negative and a clock that does not run
  backwards, the tasks one catch-up phase executes are executed in ascending order of the
  times they were due at, and the task a round executes is due no later than any task in
  the queue; among tasks due at the same time the order is the heap's, which need not be
  the order of registration.
\<close>

theorem executed_in_due_order:
  assumes ok: "queue_ok (recurring_tasks app)"
    and iv: "\<forall>task \<in> set (recurring_tasks app). 0 \<le> interval task"
    and mono: "\<forall>i j. i \<le> j \<longrightarrow> readings (clock app) i \<le> readings (clock app) j"
  shows "sorted (map due (executed fuel app))
       \<and> (\<forall>T later. executed fuel app = T # later \<longrightarrow>
            (\<forall>task \<in> set (recurring_tasks app). due T \<le> due task))"
proof
  show "sorted (map due (executed fuel app))"
  proof (cases "recurring_tasks app")
    case Nil
    then show ?thesis by (cases fuel) simp_all
  next
    case (Cons T rest)
    have "\<forall>task \<in> set (recurring_tasks app). due T \<le> due task \<and> 0 \<le> interval task"
      using queue_ok_head_least [of T rest] ok iv Cons by simp
    from executed_sorted_from [OF ok this mono] show ?thesis by simp
  qed
next
  show "\<forall>T later. executed fuel app = T # later \<longrightarrow>
            (\<forall>task \<in> set (recurring_tasks app). due T \<le> due task)"
  proof (intro allI impI)
    fix T later assume e: "executed fuel app = T # later"
    then obtain n where n: "fuel = Suc n" by (cases fuel) auto
    obtain T' rest where q: "recurring_tasks app = T' # rest"
      using e n by (cases "recurring_tasks app") auto
    then obtain t where ne: "next_execution T' = Some t"
      using ok by (auto simp: queue_ok_def scheduled_def)
    have "T' = T" using executed_first_round [OF ok q ne, of n] e n by (auto split: if_splits)
    then show "\<forall>task \<in> set (recurring_tasks app). due T \<le> due task"
      using queue_ok_head_least [of T' rest] ok q by simp
  qed
qed

theorem executed_in_due_order_witness:
  "queue_ok (recurring_tasks
        ((new_base_app False tie_clock (\<lambda>_. Returns))
            \<lparr>recurring_tasks := [scenario_task ''a'' 1, scenario_task ''b'' 2,
                                 scenario_task ''c'' 2, scenario_task ''d'' 3],
             clock := \<lparr>readings = tie_clock, reads = 4\<rparr>\<rparr>))
   \<and> map due (executed 5
        ((new_base_app False tie_clock (\<lambda>_. Returns))
            \<lparr>recurring_tasks := [scenario_task ''a'' 1, scenario_task ''b'' 2,
                                 scenario_task ''c'' 2, scenario_task ''d'' 3],
             clock := \<lparr>readings = tie_clock, reads = 4\<rparr>\<rparr>)) = [1, 2, 2, 3]
   \<and> sorted [1, 2, 2, 3 :: int]"
proof -
  let ?W = "(new_base_app False tie_clock (\<lambda>_. Returns))
            \<lparr>recurring_tasks := [scenario_task ''a'' 1, scenario_task ''b'' 2,
                                 scenario_task ''c'' 2, scenario_task ''d'' 3],
             clock := \<lparr>readings = tie_clock, reads = 4\<rparr>\<rparr>"
  have ok: "queue_ok (recurring_tasks ?W)"
    by (simp add: eval_defs queue_ok_eval scheduled_def due_def)
  have iv: "\<forall>task \<in> set (recurring_tasks ?W). 0 \<le> interval task" by (simp add: eval_defs)
  have mono: "\<forall>i j. i \<le> j \<longrightarrow> readings (clock ?W) i \<le> readings (clock ?W) j"
    by (simp add: eval_defs tie_clock_def)
  have e: "map due (executed 5 ?W) = [1, 2, 2, 3]" by (simp add: eval_defs tie_clock_def due_def)
  have "sorted (map due (executed 5 ?W))" using executed_in_due_order [OF ok iv mono, of 5] by blast
  then have "sorted [1, 2, 2, 3 :: int]" using e by simp
  then show ?thesis using ok e by blast
qed

section \<open>Waking and reporting\<close>

text \<open>
  Claim C5. When a task is pending, the wait is positive and the sleep ends without a
  hang-up signal (it returns, or raises something else with \<open>debug_mode\<close> off), the
  time is read again and downtime is tracked if and only if the time overslept, the new
  reading minus the task's \<open>next_execution\<close>, is strictly greater than
  \<open>maximum_timer_slack\<close>; what is tracked is the time overslept: it is added to the
  downtime (a float, by float addition) and to every queued task. Otherwise nothing but the clock, the count of sleeps
  and the log changes.
\<close>

theorem oversleep_is_tracked_beyond_slack:
  assumes q: "recurring_tasks app = T # rest" and ne: "next_execution T = Some t"
    and sch: "scheduled (recurring_tasks app)"
    and wait: "t - readings (clock app) (reads (clock app)) > 0"
    and woke: "sleep_outcomes app (sleeps app) = Returns
               \<or> (sleep_outcomes app (sleeps app) \<noteq> Raises SignalHangUp \<and> \<not> debug_mode (app_config app))"
    and over: "overslept = readings (clock app) (Suc (reads (clock app))) - t"
    and woken: "woken = app\<lparr>clock := (clock app)\<lparr>reads := Suc (Suc (reads (clock app)))\<rparr>,
                            sleeps := Suc (sleeps app),
                            logged := logged app
                              @ [Sleeping (t - readings (clock app) (reads (clock app)))]
                              @ (if sleep_outcomes app (sleeps app) = Returns then [] else [Wait_exception])
                              @ [Woken]\<rparr>"
  shows "if overslept > maximum_timer_slack (app_config app)
         then \<exists>heap. sleep_until_due app
                  = Inr (woken\<lparr>recurring_tasks := heap, downtime := float_add (downtime app) (total_seconds overslept),
                               logged := logged woken @ [Detected_delay overslept]\<rparr>)
                \<and> queue_ok heap
                \<and> mset heap = image_mset (adapt_to_delay overslept) (mset (recurring_tasks app))
         else sleep_until_due app = Inr woken"
proof -
  let ?now = "readings (clock app) (reads (clock app))"
  let ?app1 = "app\<lparr>clock := (clock app)\<lparr>reads := Suc (reads (clock app))\<rparr>\<rparr>"
  let ?app2 = "app\<lparr>clock := (clock app)\<lparr>reads := Suc (reads (clock app))\<rparr>,
                            sleeps := Suc (sleeps app),
                            logged := logged app @ [Sleeping (t - ?now)]
                              @ (if sleep_outcomes app (sleeps app) = Returns then [] else [Wait_exception])
                              @ [Woken]\<rparr>"
  have sl: "interruptible_sleep (t - ?now) ?app1 = Inr ?app2"
  proof (cases "sleep_outcomes app (sleeps app)")
    case Returns
    then show ?thesis by (simp add: interruptible_sleep_cases)
  next
    case (Raises e)
    then show ?thesis using woke by (simp add: interruptible_sleep_cases)
  qed
  have w: "woken = ?app2\<lparr>clock := (clock ?app2)\<lparr>reads := Suc (reads (clock ?app2))\<rparr>\<rparr>"
    using woken by simp
  have s: "sleep_until_due app =
      (if overslept > maximum_timer_slack (app_config app) then track_downtime overslept woken else Inr woken)"
    using q ne wait sl w over by (simp add: sleep_until_due_def utcnow_def Let_def)
  show ?thesis
  proof (cases "overslept > maximum_timer_slack (app_config app)")
    case False
    then show ?thesis using s by simp
  next
    case True
    have "scheduled (recurring_tasks woken)" using sch woken by simp
    from track_downtime_ok [OF this, of overslept]
    obtain heap where h: "track_downtime overslept woken
             = Inr (woken\<lparr>recurring_tasks := heap, downtime := float_add (downtime woken) (total_seconds overslept),
                        logged := logged woken @ [Detected_delay overslept]\<rparr>)"
        "queue_ok heap" "mset heap = image_mset (adapt_to_delay overslept) (mset (recurring_tasks woken))"
      by blast
    have "sleep_until_due app
            = Inr (woken\<lparr>recurring_tasks := heap, downtime := float_add (downtime app) (total_seconds overslept),
                         logged := logged woken @ [Detected_delay overslept]\<rparr>)
          \<and> queue_ok heap
          \<and> mset heap = image_mset (adapt_to_delay overslept) (mset (recurring_tasks app))"
      using h s True woken by simp
    then show ?thesis using True by auto
  qed
qed


theorem oversleep_is_tracked_beyond_slack_witness:
  "maximum_timer_slack new_base_app_config_model = 5000000
   \<and> sleep_until_due
       ((new_base_app False (\<lambda>k. if k = 0 then 0 else 14900000) (\<lambda>_. Returns))
          \<lparr>recurring_tasks := [scenario_task ''a'' 10000000]\<rparr>)
     = Inr ((new_base_app False (\<lambda>k. if k = 0 then 0 else 14900000) (\<lambda>_. Returns))
              \<lparr>recurring_tasks := [scenario_task ''a'' 10000000],
               clock := \<lparr>readings = (\<lambda>k. if k = 0 then 0 else 14900000), reads = 2\<rparr>,
               sleeps := 1, logged := [Sleeping 10000000, Woken]\<rparr>)
   \<and> sleep_until_due
       ((new_base_app False (\<lambda>k. if k = 0 then 0 else 15100000) (\<lambda>_. Returns))
          \<lparr>recurring_tasks := [scenario_task ''a'' 10000000]\<rparr>)
     = Inr ((new_base_app False (\<lambda>k. if k = 0 then 0 else 15100000) (\<lambda>_. Returns))
              \<lparr>recurring_tasks := [scenario_task ''a'' 15100000],
               downtime := float_add 0 (total_seconds 5100000),
               clock := \<lparr>readings = (\<lambda>k. if k = 0 then 0 else 15100000), reads = 2\<rparr>,
               sleeps := 1, logged := [Sleeping 10000000, Woken, Detected_delay 5100000]\<rparr>)"
proof -
  let ?A = "(new_base_app False (\<lambda>k. if k = 0 then 0 else 14900000) (\<lambda>_. Returns))
          \<lparr>recurring_tasks := [scenario_task ''a'' 10000000]\<rparr>"
  let ?A' = "(new_base_app False (\<lambda>k. if k = 0 then 0 else 14900000) (\<lambda>_. Returns))
              \<lparr>recurring_tasks := [scenario_task ''a'' 10000000],
               clock := \<lparr>readings = (\<lambda>k. if k = 0 then 0 else 14900000), reads = 2\<rparr>,
               sleeps := 1, logged := [Sleeping 10000000, Woken]\<rparr>"
  let ?B = "(new_base_app False (\<lambda>k. if k = 0 then 0 else 15100000) (\<lambda>_. Returns))
          \<lparr>recurring_tasks := [scenario_task ''a'' 10000000]\<rparr>"
  let ?B' = "(new_base_app False (\<lambda>k. if k = 0 then 0 else 15100000) (\<lambda>_. Returns))
              \<lparr>recurring_tasks := [scenario_task ''a'' 10000000],
               clock := \<lparr>readings = (\<lambda>k. if k = 0 then 0 else 15100000), reads = 2\<rparr>,
               sleeps := 1, logged := [Sleeping 10000000, Woken]\<rparr>"
  have a: "sleep_until_due ?A = Inr ?A'"
    using oversleep_is_tracked_beyond_slack
      [of ?A "scenario_task ''a'' 10000000" "[]" 10000000 4900000 ?A']
    by (simp add: eval_defs scheduled_def)
  obtain heap where b: "sleep_until_due ?B
        = Inr (?B'\<lparr>recurring_tasks := heap,
                     downtime := float_add (downtime ?B) (total_seconds 5100000),
                     logged := logged ?B' @ [Detected_delay 5100000]\<rparr>)"
      "mset heap = image_mset (adapt_to_delay 5100000) (mset (recurring_tasks ?B))"
    using oversleep_is_tracked_beyond_slack
      [of ?B "scenario_task ''a'' 10000000" "[]" 10000000 5100000 ?B']
    by (auto simp: eval_defs scheduled_def)
  have "mset heap = {#scenario_task ''a'' 15100000#}" using b(2) by (simp add: eval_defs)
  then have "heap = [scenario_task ''a'' 15100000]" by (metis mset_single_iff_right)
  then show ?thesis using a b(1) by (simp add: eval_defs)
qed

text \<open>
  Claim C6, as stated, fails on the code: the hook is called with \<open>int(self._downtime)\<close>,
  the accumulated downtime cut down to whole seconds. With 5.1 s accumulated the hook
  receives 5, not the accumulated value.
\<close>

theorem report_downtime_value_counterexample:
  "report_downtime ((scenario_app [] 0)\<lparr>downtime := float_add 0 (total_seconds 5100000)\<rparr>)
     = (scenario_app [] 0)\<lparr>downtime := 0, logged := [Handle_downtime 5]\<rparr>
   \<and> hook_calls (report_downtime ((scenario_app [] 0)\<lparr>downtime := float_add 0 (total_seconds 5100000)\<rparr>))
       = [5]
   \<and> 5 < downtime ((scenario_app [] 0)\<lparr>downtime := float_add 0 (total_seconds 5100000)\<rparr>)"
  by (simp add: report_downtime_def reset_down_time_def handle_downtime_def hook_calls_def eval_defs
        float_defs)

text \<open>
  Claim C6, amended. If the accumulated downtime is strictly positive, the report calls
  the hook exactly once, with \<open>int\<close> of the accumulated float, that is the downtime
  cut down to whole seconds, and resets the accumulator to zero; if it is zero or less,
  the report changes nothing. In a turn of the event queue that ends normally with tasks
  queued, the report at its end is the only place the hook is called from.
\<close>

theorem report_downtime_calls_hook_once:
  "hook_calls (report_downtime app)
     = hook_calls app @ (if downtime app > 0 then [int_of_float (downtime app)] else [])
   \<and> (downtime app > 0 \<longrightarrow>
         of_int (int_of_float (downtime app)) \<le> downtime app
       \<and> downtime app < of_int (int_of_float (downtime app)) + 1)
   \<and> downtime (report_downtime app) = (if downtime app > 0 then 0 else downtime app)
   \<and> (downtime app \<le> 0 \<longrightarrow> report_downtime app = app)
   \<and> (\<forall>app'. queue_ok (recurring_tasks app) \<and> recurring_tasks app \<noteq> []
          \<and> event_queue_body fuel app = Some (Inr app') \<longrightarrow>
          (\<exists>app2. hook_calls app2 = hook_calls app \<and> app' = report_downtime app2))"
proof (intro conjI)
  show "hook_calls (report_downtime app)
     = hook_calls app @ (if downtime app > 0 then [int_of_float (downtime app)] else [])"
    by (simp add: report_downtime_def reset_down_time_def handle_downtime_def log_event_def hook_calls_def)
  show "downtime app > 0 \<longrightarrow>
         of_int (int_of_float (downtime app)) \<le> downtime app
       \<and> downtime app < of_int (int_of_float (downtime app)) + 1"
    using floor_correct [of "downtime app"] by (simp add: int_of_float_def)
  show "downtime (report_downtime app) = (if downtime app > 0 then 0 else downtime app)"
    by (simp add: report_downtime_def reset_down_time_def handle_downtime_def log_event_def)
  show "downtime app \<le> 0 \<longrightarrow> report_downtime app = app"
    by (simp add: report_downtime_def)
  show "\<forall>app'. queue_ok (recurring_tasks app) \<and> recurring_tasks app \<noteq> []
          \<and> event_queue_body fuel app = Some (Inr app') \<longrightarrow>
          (\<exists>app2. hook_calls app2 = hook_calls app \<and> app' = report_downtime app2)"
  proof (intro allI impI)
    fix app'
    assume a: "queue_ok (recurring_tasks app) \<and> recurring_tasks app \<noteq> []
          \<and> event_queue_body fuel app = Some (Inr app')"
    then obtain app2 where "keeps_tasks app app2" "app' = report_downtime app2"
      using event_queue_body_keeps [of app fuel] by auto
    then show "\<exists>app2. hook_calls app2 = hook_calls app \<and> app' = report_downtime app2"
      by (auto simp: keeps_tasks_def)
  qed
qed

text \<open>
  Two instances: a turn in which a task 100.000001 s late is executed and its delay
  tracked and reported as 100, and a report after delays of 8.2 s, 23.9 s and 20.9 s have
  been tracked, whose float sum is just below 53, so that the hook receives 52.
\<close>

theorem report_downtime_calls_hook_once_witness:
  "queue_ok (recurring_tasks (scenario_app [scenario_task ''a'' 0] 100000000))
   \<and> event_queue_body 3 (scenario_app [scenario_task ''a'' 0] 100000000)
     = Some (Inr ((scenario_app [scenario_task ''a'' 210000003] 100000000)
          \<lparr>clock := \<lparr>readings = (\<lambda>k. 100000000 + int k), reads = 4\<rparr>,
           handler_calls := 1,
           logged := [Executing_start ''a'' 100000001, Executing_end ''a'' 100000001,
                      Detected_delay 100000001, Handle_downtime 100]\<rparr>))
   \<and> hook_calls ((scenario_app [scenario_task ''a'' 210000003] 100000000)
          \<lparr>clock := \<lparr>readings = (\<lambda>k. 100000000 + int k), reads = 4\<rparr>,
           handler_calls := 1,
           logged := [Executing_start ''a'' 100000001, Executing_end ''a'' 100000001,
                      Detected_delay 100000001, Handle_downtime 100]\<rparr>) = [100]
   \<and> hook_calls (report_downtime ((scenario_app [] 0)
          \<lparr>downtime := float_add (float_add (float_add 0 (total_seconds 8200000))
                                      (total_seconds 23900000)) (total_seconds 20900000)\<rparr>)) = [52]"
  using report_downtime_calls_hook_once [of "scenario_app [scenario_task ''a'' 0] 100000000" 3]
    report_downtime_calls_hook_once [of "(scenario_app [] 0)
          \<lparr>downtime := float_add (float_add (float_add 0 (total_seconds 8200000))
                                      (total_seconds 23900000)) (total_seconds 20900000)\<rparr>" 0]
  by (simp add: eval_defs cycle_defs queue_ok_eval hook_calls_def float_defs)

section \<open>Handler failures and tasks that are already due\<close>



text \<open>
  Claim C9. When the earliest task is already due as a turn of the event queue begins
  (the wait is zero or negative), there is no sleep and no check for oversleeping,
  however late the task is: the wait changes nothing but the clock's count of readings.
  The task's lateness reaches the downtime only in the round of the catch-up loop that
  executes it with a handler that returns, and only if its delay then exceeds
  \<open>minimum_downtime_duration\<close>.
\<close>

theorem no_oversleep_check_without_sleep:
  assumes q: "recurring_tasks app = T # rest" and ne: "next_execution T = Some t"
    and wait: "t - readings (clock app) (reads (clock app)) \<le> 0"
    and app1: "app1 = app\<lparr>clock := (clock app)\<lparr>reads := Suc (reads (clock app))\<rparr>\<rparr>"
  shows "sleep_until_due app = Inr app1
       \<and> (queue_ok (recurring_tasks app) \<longrightarrow>
            (\<forall>app' b. catch_up_step app1 = Inr (app', b) \<longrightarrow>
               downtime app' =
                 (if b \<and> readings (clock app) (Suc (reads (clock app))) - t
                          > minimum_downtime_duration (app_config app)
                  then float_add (downtime app)
                         (total_seconds (readings (clock app) (Suc (reads (clock app))) - t))
                  else downtime app))
          \<and> (\<forall>x app'. catch_up_step app1 = Inl (x, app') \<longrightarrow> downtime app' = downtime app))"
proof (intro conjI impI)
  show "sleep_until_due app = Inr app1"
    using q ne wait app1 by (simp add: sleep_until_due_def utcnow_def)
next
  assume ok: "queue_ok (recurring_tasks app)"
  have ok1: "queue_ok (recurring_tasks app1)" and q1: "recurring_tasks app1 = T # rest"
    using ok q app1 by simp_all
  have c1: "readings (clock app1) (reads (clock app1)) = readings (clock app) (Suc (reads (clock app)))"
    "app_config app1 = app_config app" "downtime app1 = downtime app"
    using app1 by simp_all
  note d = catch_up_step_downtime [OF ok1 q1 ne, unfolded c1]
  show "\<forall>app' b. catch_up_step app1 = Inr (app', b) \<longrightarrow>
               downtime app' =
                 (if b \<and> readings (clock app) (Suc (reads (clock app))) - t
                          > minimum_downtime_duration (app_config app)
                  then float_add (downtime app)
                         (total_seconds (readings (clock app) (Suc (reads (clock app))) - t))
                  else downtime app)"
    by (rule conjunct1 [OF d])
  show "\<forall>x app'. catch_up_step app1 = Inl (x, app') \<longrightarrow> downtime app' = downtime app"
    by (rule conjunct2 [OF d])
qed


theorem no_oversleep_check_without_sleep_witness:
  "sleep_until_due (scenario_app [scenario_task ''a'' 0] 100000000)
     = Inr ((scenario_app [scenario_task ''a'' 0] 100000000)
              \<lparr>clock := \<lparr>readings = (\<lambda>k. 100000000 + int k), reads = 1\<rparr>\<rparr>)
   \<and> queue_ok (recurring_tasks (scenario_app [scenario_task ''a'' 0] 100000000))
   \<and> catch_up_step ((scenario_app [scenario_task ''a'' 0] 100000000)
              \<lparr>clock := \<lparr>readings = (\<lambda>k. 100000000 + int k), reads = 1\<rparr>\<rparr>)
     = Inr ((scenario_app [scenario_task ''a'' 210000003] 100000000)
              \<lparr>clock := \<lparr>readings = (\<lambda>k. 100000000 + int k), reads = 3\<rparr>,
               handler_calls := 1, downtime := float_add 0 (total_seconds 100000001),
               logged := [Executing_start ''a'' 100000001, Executing_end ''a'' 100000001,
                          Detected_delay 100000001]\<rparr>, True)
   \<and> minimum_downtime_duration (app_config (scenario_app [scenario_task ''a'' 0] 100000000)) < 100000001"
  using no_oversleep_check_without_sleep
    [of "scenario_app [scenario_task ''a'' 0] 100000000" "scenario_task ''a'' 0" "[]" 0
        "(scenario_app [scenario_task ''a'' 0] 100000000)
              \<lparr>clock := \<lparr>readings = (\<lambda>k. 100000000 + int k), reads = 1\<rparr>\<rparr>"]
  by (simp add: eval_defs queue_ok_eval)

section \<open>Setting a configuration value\<close>

text \<open>
  Claim C10, as stated, fails on the code: only options of type \<open>bool\<close> and \<open>int\<close>
  are coerced. For an option of any other type the string is stored as it is, so the
  option changes its type: the \<open>_options\<close> dictionary every section carries becomes a
  string, and so does an option whose default is a float.
\<close>

theorem set_config_value_coercion_counterexample:
  "get_option_type (new_base_app_section ''BaseApp'') ''_options'' = Inr ''dict''
   \<and> set_config_value decimal_int \<lparr>sections = [''BaseApp'' \<mapsto> new_base_app_section ''BaseApp'']\<rparr>
         ''BaseApp'' ''_options'' ''abc''
       = Inr \<lparr>sections = [''BaseApp'' \<mapsto>
                 setattr (new_base_app_section ''BaseApp'') ''_options'' (PyStr ''abc'')]\<rparr>
   \<and> get_option_type (setattr (new_config_model ''Net'') ''ratio'' (PyOther ''float'')) ''ratio''
       = Inr ''float''
   \<and> set_config_value decimal_int
         \<lparr>sections = [''Net'' \<mapsto> setattr (new_config_model ''Net'') ''ratio'' (PyOther ''float'')]\<rparr>
         ''Net'' ''ratio'' ''0.5''
       = Inr \<lparr>sections = [''Net'' \<mapsto> setattr (new_config_model ''Net'') ''ratio'' (PyStr ''0.5'')]\<rparr>
   \<and> type_name (PyStr ''0.5'') = ''str''"
  by (simp add: config_defs)

text \<open>
  Claim C10, amended. Where the type marker of the option, if the section has one, is a
  type, \<open>set_config_value\<close> either sets exactly the named option of the named section
  and changes nothing else, or raises \<open>ConfigurationException\<close> and changes nothing at
  all. It sets a \<open>bool\<close> option to \<open>True\<close> or \<open>False\<close> when the value in upper case
  is in the list of true or of false values, an \<open>int\<close> option to the integer the value
  reads as, and an option of any other type to the string itself, uncoerced. It raises
  for a section that is not configured, for an option the section does not have, for a
  \<open>bool\<close> option with a value in neither list, and for an \<open>int\<close> option with a
  value that is not an integer.
\<close>

theorem set_config_value_sets_or_raises:
  assumes wf: "\<forall>section. sections config p_section_name = Some section \<longrightarrow> marker_ok section p_option"
  shows "(\<exists>section option_type v.
            sections config p_section_name = Some section \<and> has_option section p_option
          \<and> get_option_type section p_option = Inr option_type
          \<and> set_config_value to_int config p_section_name p_option p_option_value
              = Inr (config\<lparr>sections := (sections config)
                       (p_section_name \<mapsto> section\<lparr>attributes := (attributes section)(p_option \<mapsto> v)\<rparr>)\<rparr>)
          \<and> (if option_type = ''bool''
              then upper p_option_value \<in> set VALID_BOOLEAN_TRUE_VALUES \<union> set VALID_BOOLEAN_FALSE_VALUES
                 \<and> v = PyBool (upper p_option_value \<in> set VALID_BOOLEAN_TRUE_VALUES)
              else if option_type = ''int'' then to_int p_option_value = Some (case v of PyInt i \<Rightarrow> i | _ \<Rightarrow> 0)
                 \<and> type_name v = ''int''
              else v = PyStr p_option_value))
       \<or> (set_config_value to_int config p_section_name p_option p_option_value
              = Inl (ConfigurationException, config)
          \<and> (case sections config p_section_name of
                None \<Rightarrow> True
              | Some section \<Rightarrow>
                  \<not> has_option section p_option
                  \<or> get_option_type section p_option = Inr ''bool''
                      \<and> upper p_option_value \<notin> set VALID_BOOLEAN_TRUE_VALUES \<union> set VALID_BOOLEAN_FALSE_VALUES
                  \<or> get_option_type section p_option = Inr ''int'' \<and> to_int p_option_value = None))"
proof (cases "sections config p_section_name")
  case None
  then show ?thesis by (simp add: set_config_value_def)
next
  case (Some sec)
  show ?thesis
  proof (cases "has_option sec p_option")
    case False
    then show ?thesis using Some by (simp add: set_config_value_def)
  next
    case True
    have "marker_ok sec p_option" using wf Some by simp
    then obtain option_type where ty: "get_option_type sec p_option = Inr option_type"
      using True
      by (auto simp: marker_ok_def get_option_type_def has_option_def
               split: option.splits pyvalue.splits)
    have store: "\<And>v. type_name v \<noteq> ''type'' \<Longrightarrow>
        setattr sec p_option v = sec\<lparr>attributes := (attributes sec)(p_option \<mapsto> v)\<rparr>"
    proof -
      fix v assume "type_name v \<noteq> ''type''"
      then show "setattr sec p_option v = sec\<lparr>attributes := (attributes sec)(p_option \<mapsto> v)\<rparr>"
        by (cases v) (simp_all add: setattr_def)
    qed
    show ?thesis
    proof (cases "option_type = ''bool''")
      case bool: True
      show ?thesis
      proof (cases "upper p_option_value \<in> set VALID_BOOLEAN_TRUE_VALUES")
        case t: True
        have "set_config_value to_int config p_section_name p_option p_option_value
              = Inr (config\<lparr>sections := (sections config)
                       (p_section_name \<mapsto> sec\<lparr>attributes := (attributes sec)(p_option \<mapsto> PyBool True)\<rparr>)\<rparr>)"
          using Some True ty bool t store [of "PyBool True"] by (simp add: set_config_value_def)
        then show ?thesis using Some True ty bool t by auto
      next
        case nt: False
        show ?thesis
        proof (cases "upper p_option_value \<in> set VALID_BOOLEAN_FALSE_VALUES")
          case f: True
          have "set_config_value to_int config p_section_name p_option p_option_value
              = Inr (config\<lparr>sections := (sections config)
                       (p_section_name \<mapsto> sec\<lparr>attributes := (attributes sec)(p_option \<mapsto> PyBool False)\<rparr>)\<rparr>)"
            using Some True ty bool nt f store [of "PyBool False"] by (simp add: set_config_value_def)
          then show ?thesis using Some True ty bool nt f by auto
        next
          case nf: False
          have "set_config_value to_int config p_section_name p_option p_option_value
              = Inl (ConfigurationException, config)"
            using Some True ty bool nt nf by (simp add: set_config_value_def)
          then show ?thesis using Some True ty bool nt nf by simp
        qed
      qed
    next
      case nbool: False
      show ?thesis
      proof (cases "option_type = ''int''")
        case int: True
        show ?thesis
        proof (cases "to_int p_option_value")
          case None
          have "set_config_value to_int config p_section_name p_option p_option_value
              = Inl (ConfigurationException, config)"
            using Some True ty int None by (simp add: set_config_value_def)
          then show ?thesis using Some True ty int None by simp
        next
          case i: (Some i)
          have "set_config_value to_int config p_section_name p_option p_option_value
              = Inr (config\<lparr>sections := (sections config)
                       (p_section_name \<mapsto> sec\<lparr>attributes := (attributes sec)(p_option \<mapsto> PyInt i)\<rparr>)\<rparr>)"
            using Some True ty int i store [of "PyInt i"] by (simp add: set_config_value_def)
          then show ?thesis using Some True ty int i by auto
        qed
      next
        case nint: False
        have "set_config_value to_int config p_section_name p_option p_option_value
              = Inr (config\<lparr>sections := (sections config)
                       (p_section_name \<mapsto> sec\<lparr>attributes := (attributes sec)(p_option \<mapsto> PyStr p_option_value)\<rparr>)\<rparr>)"
          using Some True ty nbool nint store [of "PyStr p_option_value"] by (simp add: set_config_value_def)
        then show ?thesis using Some True ty nbool nint by auto
      qed
    qed
  qed
qed

theorem set_config_value_sets_or_raises_witness:
  "marker_ok (new_base_app_section ''BaseApp'') ''debug_mode''
   \<and> marker_ok (new_base_app_section ''BaseApp'') ''maximum_timer_slack''
   \<and> set_config_value decimal_int \<lparr>sections = [''BaseApp'' \<mapsto> new_base_app_section ''BaseApp'']\<rparr>
         ''BaseApp'' ''debug_mode'' ''ja''
       = Inr \<lparr>sections = [''BaseApp'' \<mapsto>
                 setattr (new_base_app_section ''BaseApp'') ''debug_mode'' (PyBool True)]\<rparr>
   \<and> set_config_value decimal_int \<lparr>sections = [''BaseApp'' \<mapsto> new_base_app_section ''BaseApp'']\<rparr>
         ''BaseApp'' ''maximum_timer_slack'' ''7''
       = Inr \<lparr>sections = [''BaseApp'' \<mapsto>
                 setattr (new_base_app_section ''BaseApp'') ''maximum_timer_slack'' (PyInt 7)]\<rparr>
   \<and> set_config_value decimal_int \<lparr>sections = [''BaseApp'' \<mapsto> new_base_app_section ''BaseApp'']\<rparr>
         ''BaseApp'' ''debug_mode'' ''maybe''
       = Inl (ConfigurationException, \<lparr>sections = [''BaseApp'' \<mapsto> new_base_app_section ''BaseApp'']\<rparr>)
   \<and> set_config_value decimal_int \<lparr>sections = [''BaseApp'' \<mapsto> new_base_app_section ''BaseApp'']\<rparr>
         ''BaseApp'' ''maximum_timer_slack'' ''seven''
       = Inl (ConfigurationException, \<lparr>sections = [''BaseApp'' \<mapsto> new_base_app_section ''BaseApp'']\<rparr>)"
  using set_config_value_sets_or_raises
    [of "\<lparr>sections = [''BaseApp'' \<mapsto> new_base_app_section ''BaseApp'']\<rparr>" "''BaseApp''" "''debug_mode''"
        decimal_int "''ja''"]
  by (simp add: config_defs)

end
